theory Spec2Isabelle
  imports Main "HOL-Library.Word"
begin

section \<open>Values of the host language\<close>

text \<open>
  The decoder (\<^verbatim>\<open>src/lib/secure-qr-decoder.ts\<close>) works on \<^verbatim>\<open>Uint8Array\<close> buffers,
  on strings built from single bytes with \<^verbatim>\<open>String.fromCharCode\<close>, and on Numbers.
  \<^item> A byte is an \<open>8 word\<close>; a buffer is a list of bytes.
  \<^item> A string is a \<open>char list\<close>. A \<open>char\<close> is one code unit in the range 0..255, which is
    exactly what \<^verbatim>\<open>bytesToString\<close> produces; strings that come from elsewhere (the raw
    QR text) are modelled within that range.
  \<^item> A Number that results from \<^verbatim>\<open>parseInt\<close> is \<open>NaN\<close>, an integer of magnitude at most
    \<open>2 ^ 53\<close> (every one of them is a double, so \<open>Num\<close> carries it exactly), or a value
    beyond that range, where the double is a rounding of the digits (and, for more
    than 20 digits, one the language leaves to the implementation): \<open>Unsafe\<close> stands for
    such a Number and does not say which one it is.
\<close>

type_synonym byte = "8 word"

datatype number = NaN | Num int | Unsafe

definition isNaN :: "number \<Rightarrow> bool" where
  "isNaN v = (v = NaN)"

definition toNumber :: "int \<Rightarrow> number" where
  "toNumber v = (if \<bar>v\<bar> \<le> 2 ^ 53 then Num v else Unsafe)"

text \<open>White space of the language, among the code units below 256 (tab, line feed,
  vertical tab, form feed, carriage return, space, no-break space).\<close>

definition isWhiteSpace :: "char \<Rightarrow> bool" where
  "isWhiteSpace c = (of_char c \<in> {9, 10, 11, 12, 13, 32, 160 :: nat})"

definition trimStart :: "string \<Rightarrow> string" where
  "trimStart s = dropWhile isWhiteSpace s"

definition trim :: "string \<Rightarrow> string" where
  "trim s = rev (dropWhile isWhiteSpace (rev (dropWhile isWhiteSpace s)))"

text \<open>The value of a digit character in radixes up to 36.\<close>

definition digitValue :: "char \<Rightarrow> int option" where
  "digitValue c =
     (let n = (of_char c :: int) in
      if 48 \<le> n \<and> n \<le> 57 then Some (n - 48)
      else if 97 \<le> n \<and> n \<le> 122 then Some (n - 87)
      else if 65 \<le> n \<and> n \<le> 90 then Some (n - 55)
      else None)"

definition isRadixDigit :: "int \<Rightarrow> char \<Rightarrow> bool" where
  "isRadixDigit R c = (case digitValue c of None \<Rightarrow> False | Some d \<Rightarrow> d < R)"

definition digitsValue :: "int \<Rightarrow> string \<Rightarrow> int" where
  "digitsValue R Z = foldl (\<lambda>acc c. acc * R + (case digitValue c of None \<Rightarrow> 0 | Some d \<Rightarrow> d)) 0 Z"

text \<open>
  \<^verbatim>\<open>parseInt(string, radix)\<close>: skip leading white space, read an optional sign, for radix
  16 (or 0) skip a \<^verbatim>\<open>0x\<close> prefix, take the longest run of digits of the radix; no digits
  give \<open>NaN\<close>. Whatever follows the digits is ignored.
\<close>

definition parseInt :: "string \<Rightarrow> int \<Rightarrow> number" where
  "parseInt string radix =
     (let S = trimStart string;
          sign = (if S \<noteq> [] \<and> hd S = CHR ''-'' then - 1 else 1 :: int);
          S = (if S \<noteq> [] \<and> (hd S = CHR ''+'' \<or> hd S = CHR ''-'') then tl S else S);
          stripPrefix = (radix = 0 \<or> radix = 16);
          R = (if radix = 0 then 10 else radix);
          hasPrefix = (stripPrefix \<and> (take 2 S = ''0x'' \<or> take 2 S = ''0X''));
          S = (if hasPrefix then drop 2 S else S);
          R = (if hasPrefix then 16 else R);
          Z = takeWhile (isRadixDigit R) S
      in if radix \<noteq> 0 \<and> (radix < 2 \<or> 36 < radix) then NaN
         else if Z = [] then NaN
         else toNumber (sign * digitsValue R Z))"

text \<open>Storing a Number into a \<^verbatim>\<open>Uint8Array\<close> reduces it modulo 256; \<open>NaN\<close> is stored as 0.
  The decoder stores values of two hexadecimal digits only, so \<open>Unsafe\<close> is never stored.\<close>

definition ToUint8 :: "number \<Rightarrow> byte" where
  "ToUint8 v = (case v of NaN \<Rightarrow> 0 | Num k \<Rightarrow> word_of_int k | Unsafe \<Rightarrow> 0)"

text \<open>\<^verbatim>\<open>Uint8Array.prototype.slice(start, end)\<close>: a negative index counts from the end, and
  both indices are clamped to the buffer.\<close>

definition relativeIndex :: "nat \<Rightarrow> int \<Rightarrow> nat" where
  "relativeIndex len k = (if k < 0 then nat (max (int len + k) 0) else min (nat k) len)"

definition slice :: "'a list \<Rightarrow> int \<Rightarrow> int \<Rightarrow> 'a list" where
  "slice xs start end =
     (let from = relativeIndex (length xs) start;
          final = relativeIndex (length xs) end
      in take (final - from) (drop from xs))"

text \<open>\<^verbatim>\<open>String.prototype.substring(start, end)\<close> on indices that are not negative.\<close>

definition substring :: "string \<Rightarrow> nat \<Rightarrow> nat \<Rightarrow> string" where
  "substring s start end =
     (let from = min (min start end) (length s);
          to = min (max start end) (length s)
      in take (to - from) (drop from s))"

text \<open>\<^verbatim>\<open>String.prototype.split(separator)\<close> for a separator of one character.\<close>

fun split :: "char \<Rightarrow> string \<Rightarrow> string list" where
  "split sep [] = [[]]"
| "split sep (c # cs) =
     (if c = sep then [] # split sep cs
      else (case split sep cs of [] \<Rightarrow> [[c]] | p # ps \<Rightarrow> (c # p) # ps))"

text \<open>\<^verbatim>\<open>toString(16)\<close> of an integer that is not negative (the recursion is used on
  such integers only), and of a BigInt.\<close>

definition hexDigit :: "int \<Rightarrow> char" where
  "hexDigit d = ''0123456789abcdef'' ! nat (d mod 16)"

function toString16 :: "int \<Rightarrow> string" where
  "toString16 n = (if n < 16 then [hexDigit n] else toString16 (n div 16) @ [hexDigit (n mod 16)])"
  by pat_completeness auto
termination
  by (relation "measure nat") auto

declare toString16.simps [simp del]

definition bigIntToString16 :: "int \<Rightarrow> string" where
  "bigIntToString16 k = (if k < 0 then CHR ''-'' # toString16 (- k) else toString16 k)"

definition padStart2 :: "string \<Rightarrow> string" where
  "padStart2 s = replicate (2 - length s) CHR ''0'' @ s"

section \<open>Byte codec\<close>

datatype error =
  ConversionFailure
  | ExtractionFailure nat

text \<open>
  \<^verbatim>\<open>BigInt(string)\<close>: the string is trimmed; the empty string is 0; otherwise it is a run of
  decimal digits with an optional sign, or \<^verbatim>\<open>0x\<close>, \<^verbatim>\<open>0o\<close>, \<^verbatim>\<open>0b\<close> and a run of digits of that
  radix. Anything else is a \<^verbatim>\<open>SyntaxError\<close> (\<open>None\<close>).
\<close>

definition digitsOf :: "int \<Rightarrow> string \<Rightarrow> int option" where
  "digitsOf R ds =
     (if ds \<noteq> [] \<and> list_all (isRadixDigit R) ds then Some (digitsValue R ds) else None)"

definition StringToBigInt :: "string \<Rightarrow> int option" where
  "StringToBigInt str =
     (let text = trim str in
      if text = [] then Some 0
      else if take 2 text = ''0x'' \<or> take 2 text = ''0X'' then digitsOf 16 (drop 2 text)
      else if take 2 text = ''0o'' \<or> take 2 text = ''0O'' then digitsOf 8 (drop 2 text)
      else if take 2 text = ''0b'' \<or> take 2 text = ''0B'' then digitsOf 2 (drop 2 text)
      else if hd text = CHR ''-'' then map_option uminus (digitsOf 10 (tl text))
      else if hd text = CHR ''+'' then digitsOf 10 (tl text)
      else digitsOf 10 text)"

text \<open>
  \<^verbatim>\<open>convertBase10ToByteArray\<close>: the BigInt is printed in hexadecimal, padded with one
  \<^verbatim>\<open>0\<close> to even length, and each pair of characters is read back with \<^verbatim>\<open>parseInt(_, 16)\<close>
  and stored in the byte array (\<open>hexToBytes\<close> is that loop). An exception of \<^verbatim>\<open>BigInt\<close> is
  caught and thrown again.
\<close>

definition hexToBytes :: "string \<Rightarrow> byte list" where
  "hexToBytes hexString =
     map (\<lambda>i. ToUint8 (parseInt (substring hexString (i * 2) (i * 2 + 2)) 16))
       [0 ..< length hexString div 2]"

definition convertBase10ToByteArray :: "string \<Rightarrow> error + byte list" where
  "convertBase10ToByteArray base10String =
     (case StringToBigInt base10String of
        None \<Rightarrow> Inl ConversionFailure
      | Some bigInt \<Rightarrow>
          let hexString = bigIntToString16 bigInt;
              hexString = (if length hexString mod 2 \<noteq> 0 then CHR ''0'' # hexString else hexString)
          in Inr (hexToBytes hexString))"

text \<open>The integer that a byte sequence denotes, most significant byte first.\<close>

definition bigEndianValue :: "byte list \<Rightarrow> int" where
  "bigEndianValue bytes = foldl (\<lambda>acc b. acc * 256 + uint b) 0 bytes"

definition bytesToString :: "byte list \<Rightarrow> string" where
  "bytesToString bytes = map (\<lambda>b. char_of (unat b)) bytes"

definition bytesToHexString :: "byte list \<Rightarrow> string" where
  "bytesToHexString bytes = concat (map (\<lambda>b. padStart2 (toString16 (uint b))) bytes)"

section \<open>Dates\<close>

text \<open>
  A \<^verbatim>\<open>Date\<close> holds a time value: a number of milliseconds, or \<open>NaN\<close> (an invalid date,
  \<open>None\<close> below). The decoder builds dates from local calendar fields, reads local
  calendar fields and compares dates with each other; the model keeps every time value
  in local time (milliseconds since local midnight of 1 January 1970) and takes the
  offset of local time from UTC to be constant (so the limits of the range of time
  values are applied to the local value). The calendar functions are those of the
  language definition: \<open>Day\<close>, \<open>DayFromYear\<close>, \<open>YearFromTime\<close>, \<open>MonthFromTime\<close>,
  \<open>DateFromTime\<close>, \<open>MakeDay\<close>, \<open>MakeDate\<close>, \<open>TimeClip\<close>.
\<close>

definition msPerDay :: int where
  "msPerDay = 86400000"

definition Day :: "int \<Rightarrow> int" where
  "Day t = t div msPerDay"

definition TimeWithinDay :: "int \<Rightarrow> int" where
  "TimeWithinDay t = t mod msPerDay"

definition DaysInYear :: "int \<Rightarrow> int" where
  "DaysInYear y =
     (if y mod 4 \<noteq> 0 then 365 else if y mod 100 \<noteq> 0 then 366
      else if y mod 400 \<noteq> 0 then 365 else 366)"

definition DayFromYear :: "int \<Rightarrow> int" where
  "DayFromYear y = 365 * (y - 1970) + (y - 1969) div 4 - (y - 1901) div 100 + (y - 1601) div 400"

lemma div_succ_int:
  fixes a n :: int
  assumes "1 < n"
  shows "(a + 1) div n = a div n + (if (a + 1) mod n = 0 then 1 else 0)"
proof -
  have r: "0 \<le> a mod n" "a mod n < n" using assms by simp_all
  have one: "(1::int) div n = 0" "(1::int) mod n = 1" using assms by simp_all
  have d: "(a + 1) div n = a div n + (a mod n + 1) div n"
    using div_add1_eq [of a 1 n] one by simp
  have m: "(a + 1) mod n = (a mod n + 1) mod n"
    by (simp add: mod_add_left_eq)
  show ?thesis
  proof (cases "a mod n + 1 = n")
    case True
    then show ?thesis using d m assms by simp
  next
    case False
    then have lt: "a mod n + 1 < n" using r by simp
    have "(a mod n + 1) div n = 0" "(a mod n + 1) mod n = a mod n + 1"
      using lt r by simp_all
    then show ?thesis using d m r by simp
  qed
qed

lemma mod_shift: "((y::int) - c * k) mod c = y mod c"
  using mod_mult_self2 [of y c "- k"] by simp

lemma leap_div4:
  "((y::int) + 1 - 1969) div 4 = (y - 1969) div 4 + (if y mod 4 = 0 then 1 else 0)"
  using div_succ_int [of 4 "y - 1969"] mod_shift [of y 4 492] by (simp add: algebra_simps)

lemma leap_div100:
  "((y::int) + 1 - 1901) div 100 = (y - 1901) div 100 + (if y mod 100 = 0 then 1 else 0)"
  using div_succ_int [of 100 "y - 1901"] mod_shift [of y 100 19] by (simp add: algebra_simps)

lemma leap_div400:
  "((y::int) + 1 - 1601) div 400 = (y - 1601) div 400 + (if y mod 400 = 0 then 1 else 0)"
  using div_succ_int [of 400 "y - 1601"] mod_shift [of y 400 4] by (simp add: algebra_simps)

lemma mod100_mod4: "(y::int) mod 100 = 0 \<Longrightarrow> y mod 4 = 0"
  using mod_mod_cancel [of 4 100 y] by simp

lemma mod400_mod100: "(y::int) mod 400 = 0 \<Longrightarrow> y mod 100 = 0"
  using mod_mod_cancel [of 100 400 y] by simp

lemma DayFromYear_step: "DayFromYear (y + 1) = DayFromYear y + DaysInYear y"
proof -
  define a where "a = (y - 1969) div 4"
  define b where "b = (y - 1901) div 100"
  define c where "c = (y - 1601) div 400"
  define p4 where "p4 = (y mod 4 = 0)"
  define p100 where "p100 = (y mod 100 = 0)"
  define p400 where "p400 = (y mod 400 = 0)"
  have next_year: "DayFromYear (y + 1) =
      365 * (y + 1 - 1970) + (a + (if p4 then 1 else 0)) - (b + (if p100 then 1 else 0))
        + (c + (if p400 then 1 else 0))"
    unfolding DayFromYear_def leap_div4 leap_div100 leap_div400 a_def b_def c_def
      p4_def p100_def p400_def by (rule refl)
  have this_year: "DayFromYear y = 365 * (y - 1970) + a - b + c"
    unfolding DayFromYear_def a_def b_def c_def by (rule refl)
  have days: "DaysInYear y =
      (if \<not> p4 then 365 else if \<not> p100 then 366 else if \<not> p400 then 365 else 366)"
    unfolding DaysInYear_def p4_def p100_def p400_def by (rule refl)
  have imp: "p100 \<longrightarrow> p4" "p400 \<longrightarrow> p100"
    unfolding p4_def p100_def p400_def
    by (rule impI, erule mod100_mod4) (rule impI, erule mod400_mod100)
  show ?thesis
    unfolding next_year this_year days using imp by (cases p4; cases p100; cases p400) simp_all
qed

lemma DaysInYear_ge: "365 \<le> DaysInYear y"
  by (simp add: DaysInYear_def)

text \<open>
  \<open>YearFromTime t\<close> is the largest year \<open>y\<close> with \<open>DayFromYear y \<le> Day t\<close>. The search
  starts from a year that is not above it and steps forward.
\<close>

function yearSearch :: "int \<Rightarrow> int \<Rightarrow> int" where
  "yearSearch d y = (if DayFromYear (y + 1) \<le> d then yearSearch d (y + 1) else y)"
  by pat_completeness auto
termination
proof (relation "measure (\<lambda>(d, y). nat (d - DayFromYear y))")
  show "wf (measure (\<lambda>(d, y). nat (d - DayFromYear y)))"
    by simp
next
  fix d y :: int
  assume "DayFromYear (y + 1) \<le> d"
  then show "((d, y + 1), (d, y)) \<in> measure (\<lambda>(d, y). nat (d - DayFromYear y))"
    using DayFromYear_step [of y] DaysInYear_ge [of y] by simp
qed

declare yearSearch.simps [simp del]

definition YearFromDay :: "int \<Rightarrow> int" where
  "YearFromDay d = yearSearch d (1970 + (if 0 \<le> d then d div 366 else d div 365))"

definition YearFromTime :: "int \<Rightarrow> int" where
  "YearFromTime t = YearFromDay (Day t)"

definition InLeapYear :: "int \<Rightarrow> int" where
  "InLeapYear t = (if DaysInYear (YearFromTime t) = 366 then 1 else 0)"

definition DayWithinYear :: "int \<Rightarrow> int" where
  "DayWithinYear t = Day t - DayFromYear (YearFromTime t)"

definition MonthFromTime :: "int \<Rightarrow> int" where
  "MonthFromTime t =
     (let d = DayWithinYear t; L = InLeapYear t in
      if d < 31 then 0 else if d < 59 + L then 1 else if d < 90 + L then 2
      else if d < 120 + L then 3 else if d < 151 + L then 4 else if d < 181 + L then 5
      else if d < 212 + L then 6 else if d < 243 + L then 7 else if d < 273 + L then 8
      else if d < 304 + L then 9 else if d < 334 + L then 10 else 11)"

definition DateFromTime :: "int \<Rightarrow> int" where
  "DateFromTime t =
     (let d = DayWithinYear t; L = InLeapYear t; m = MonthFromTime t in
      if m = 0 then d + 1 else if m = 1 then d - 30 else if m = 2 then d - 58 - L
      else if m = 3 then d - 89 - L else if m = 4 then d - 119 - L
      else if m = 5 then d - 150 - L else if m = 6 then d - 180 - L
      else if m = 7 then d - 211 - L else if m = 8 then d - 242 - L
      else if m = 9 then d - 272 - L else if m = 10 then d - 303 - L
      else d - 333 - L)"

text \<open>The number of days of a year that lie before its month \<open>mn\<close> (0 is January).\<close>

definition daysBeforeMonth :: "int \<Rightarrow> int \<Rightarrow> int" where
  "daysBeforeMonth y mn =
     (let L = (if DaysInYear y = 366 then 1 else 0) in
      if mn = 0 then 0 else if mn = 1 then 31 else if mn = 2 then 59 + L
      else if mn = 3 then 90 + L else if mn = 4 then 120 + L else if mn = 5 then 151 + L
      else if mn = 6 then 181 + L else if mn = 7 then 212 + L else if mn = 8 then 243 + L
      else if mn = 9 then 273 + L else if mn = 10 then 304 + L else 334 + L)"

text \<open>
  \<open>MakeDay\<close>: the month is carried into the year; the language definition then asks
  for a time value on the first day of that month and gives \<open>NaN\<close> (\<open>None\<close>) when there
  is none, that is, when that day lies more than 100,000,000 days from the epoch;
  the day of the month is added to the number of that day.
\<close>

definition MakeDay :: "int \<Rightarrow> int \<Rightarrow> int \<Rightarrow> int option" where
  "MakeDay year month date =
     (let ym = year + month div 12; mn = month mod 12;
          first = DayFromYear ym + daysBeforeMonth ym mn
      in if \<bar>first\<bar> \<le> 100000000 then Some (first + date - 1) else None)"

definition MakeDate :: "int \<Rightarrow> int \<Rightarrow> int" where
  "MakeDate day time = day * msPerDay + time"

definition TimeClip :: "int \<Rightarrow> int option" where
  "TimeClip t = (if \<bar>t\<bar> > 8640000000000000 then None else Some t)"

text \<open>
  \<^verbatim>\<open>new Date(year, month, day)\<close>: a year from 0 to 99 means 1900 + year; month and day
  may lie outside their ranges and carry over. The model gives no date when a component
  lies beyond \<open>2 ^ 53\<close>: such a year or day puts the date out of the range of time
  values, and so does such a month unless a year of the opposite sign and of magnitude
  above \<open>7 * 10 ^ 14\<close> offsets it, a case the model leaves out.
\<close>

definition newDate :: "number \<Rightarrow> number \<Rightarrow> number \<Rightarrow> int option" where
  "newDate year month day =
     (case (year, month, day) of
        (Num y, Num m, Num dt) \<Rightarrow>
          (let yr = (if 0 \<le> y \<and> y \<le> 99 then 1900 + y else y)
           in case MakeDay yr m dt of
                None \<Rightarrow> None
              | Some d \<Rightarrow> TimeClip (MakeDate d 0))
      | _ \<Rightarrow> None)"

definition getFullYear :: "int \<Rightarrow> int" where
  "getFullYear t = YearFromTime t"

definition getMonth :: "int \<Rightarrow> int" where
  "getMonth t = MonthFromTime t"

definition getDate :: "int \<Rightarrow> int" where
  "getDate t = DateFromTime t"

definition setFullYear :: "int \<Rightarrow> int \<Rightarrow> int option" where
  "setFullYear t y =
     (case MakeDay y (MonthFromTime t) (DateFromTime t) of
        None \<Rightarrow> None
      | Some d \<Rightarrow> TimeClip (MakeDate d (TimeWithinDay t)))"

section \<open>Date of birth and age\<close>

text \<open>
  What the decoder takes from its environment: the clock and the implementation's
  parser of date strings (\<^verbatim>\<open>new Date(string)\<close>), which the language leaves open. Every
  \<^verbatim>\<open>new Date()\<close> reads the clock anew: \<open>clock h k\<close> is the reading number \<open>k\<close>, counted
  from 0, of one call of the decoder. \<^verbatim>\<open>parseDateOfBirth\<close> makes the readings 0 (for
  \<^verbatim>\<open>today\<close>) and 1 (for \<^verbatim>\<open>minDate\<close>); in \<^verbatim>\<open>extractDataFields\<close>, \<^verbatim>\<open>calculateAge\<close> then
  makes reading 2.
\<close>

record host =
  clock :: "nat \<Rightarrow> int"
  dateParse :: "string \<Rightarrow> int option"

definition minusOne :: "number \<Rightarrow> number" where
  "minusOne v = (case v of NaN \<Rightarrow> NaN | Num k \<Rightarrow> toNumber (k - 1) | Unsafe \<Rightarrow> Unsafe)"

definition dateFromParts :: "string \<Rightarrow> string \<Rightarrow> string \<Rightarrow> int option" where
  "dateFromParts dayPart monthPart yearPart =
     (let day = parseInt dayPart 10;
          month = parseInt monthPart 10;
          year = parseInt yearPart 10
      in if isNaN day \<or> isNaN month \<or> isNaN year then None
         else newDate year (minusOne month) day)"

text \<open>The first half of \<^verbatim>\<open>parseDateOfBirth\<close>: the \<^verbatim>\<open>Date\<close> that it constructs from the
  cleaned string, or \<open>None\<close> where the function returns \<^verbatim>\<open>null\<close> before its sanity check
  (a wrong number of parts, a component that is not a number, an invalid date).\<close>

definition buildDob :: "host \<Rightarrow> string \<Rightarrow> int option" where
  "buildDob h cleanDob =
     (if CHR ''/'' \<in> set cleanDob then
        (let parts = split CHR ''/'' cleanDob in
         if length parts \<noteq> 3 then None
         else dateFromParts (parts ! 0) (parts ! 1) (parts ! 2))
      else if CHR ''-'' \<in> set cleanDob then
        (let parts = split CHR ''-'' cleanDob in
         if length parts \<noteq> 3 then None
         else if length (parts ! 0) = 4 then dateFromParts (parts ! 2) (parts ! 1) (parts ! 0)
         else dateFromParts (parts ! 0) (parts ! 1) (parts ! 2))
      else dateParse h cleanDob)"

text \<open>The sanity check: not after the first reading of the clock, and not before the
  second reading with its year set to the year of the first less 120. A comparison
  with an invalid date is false.\<close>

definition parseDateOfBirth :: "host \<Rightarrow> string \<Rightarrow> int option" where
  "parseDateOfBirth h dobString =
     (case buildDob h (trim dobString) of
        None \<Rightarrow> None
      | Some dob \<Rightarrow>
          (let today = clock h 0 in
           if dob > today then None
           else
             (let maxAge = 120;
                  minDate = setFullYear (clock h 1) (getFullYear today - maxAge)
              in if (case minDate of None \<Rightarrow> False | Some m \<Rightarrow> dob < m) then None
                 else Some dob)))"

text \<open>\<^verbatim>\<open>calculateAge(dob)\<close>, with the clock reading \<open>today\<close> as an argument.\<close>

definition calculateAge :: "int \<Rightarrow> int \<Rightarrow> int" where
  "calculateAge today dob =
     (let age = getFullYear today - getFullYear dob;
          monthDiff = getMonth today - getMonth dob
      in if monthDiff < 0 \<or> (monthDiff = 0 \<and> getDate today < getDate dob) then age - 1
         else age)"

section \<open>Field parser\<close>

definition DELIMITER :: byte where
  "DELIMITER = 255"

definition SIGNATURE_SIZE :: int where
  "SIGNATURE_SIZE = 256"

text \<open>An array read \<^verbatim>\<open>xs[k]\<close>: \<^verbatim>\<open>undefined\<close> (\<open>None\<close>) beyond the end.\<close>

definition at :: "'a list \<Rightarrow> nat \<Rightarrow> 'a option" where
  "at xs k = (if k < length xs then Some (xs ! k) else None)"

text \<open>The inner loop of the first pass: the index of the next delimiter at or after
  \<open>endIndex\<close>, or the length of the buffer.\<close>

function findDelimiter :: "byte list \<Rightarrow> nat \<Rightarrow> nat" where
  "findDelimiter byteArray endIndex =
     (if endIndex < length byteArray \<and> byteArray ! endIndex \<noteq> DELIMITER
      then findDelimiter byteArray (endIndex + 1) else endIndex)"
  by pat_completeness auto
termination
  by (relation "measure (\<lambda>(byteArray, endIndex). length byteArray - endIndex)") auto

declare findDelimiter.simps [simp del]

lemma findDelimiter_ge: "endIndex \<le> findDelimiter byteArray endIndex"
proof (induction byteArray endIndex rule: findDelimiter.induct)
  case (1 byteArray endIndex)
  show ?case
  proof (cases "endIndex < length byteArray \<and> byteArray ! endIndex \<noteq> DELIMITER")
    case True
    then have "endIndex + 1 \<le> findDelimiter byteArray (endIndex + 1)"
      using "1.IH" by simp
    then show ?thesis
      using True by (subst findDelimiter.simps) simp
  next
    case False
    then show ?thesis
      by (subst findDelimiter.simps) auto
  qed
qed

lemma findDelimiter_measure:
  "index < length byteArray \<Longrightarrow>
     length byteArray - Suc (findDelimiter byteArray index) < length byteArray - index"
  using findDelimiter_ge [of index byteArray] by arith

text \<open>The first pass: the values of the fields read so far and the index after the
  delimiter of the last one. It stops at the end of the buffer or after 16 fields.\<close>

function readFields :: "byte list \<Rightarrow> nat \<Rightarrow> string list \<Rightarrow> string list \<times> nat" where
  "readFields byteArray index fieldValues =
     (if index < length byteArray then
        (let endIndex = findDelimiter byteArray index;
             fieldBytes = slice byteArray (int index) (int endIndex);
             val = bytesToString fieldBytes;
             fieldValues' = fieldValues @ [val];
             index' = endIndex + 1
         in if length fieldValues' > 15 then (fieldValues', index')
            else readFields byteArray index' fieldValues')
      else (fieldValues, index))"
  by pat_completeness auto
termination
  by (relation "measure (\<lambda>(byteArray, index, fieldValues). length byteArray - index)")
    (auto simp add: findDelimiter_measure)

declare readFields.simps [simp del]

text \<open>The loop of the workaround: \<^verbatim>\<open>fieldValues[i] = fieldValues[i + 1]\<close> for \<open>i\<close> from 1
  while \<open>i < length - 1\<close>.\<close>

function shiftFields :: "string list \<Rightarrow> nat \<Rightarrow> string list" where
  "shiftFields fieldValues i =
     (if i + 1 < length fieldValues
      then shiftFields (fieldValues[i := fieldValues ! (i + 1)]) (i + 1)
      else fieldValues)"
  by pat_completeness auto
termination
  by (relation "measure (\<lambda>(fieldValues, i). length fieldValues - i)") auto

declare shiftFields.simps [simp del]

text \<open>
  The object that \<^verbatim>\<open>extractDataFields\<close> returns. A text field is \<open>None\<close> where the source
  assigns \<^verbatim>\<open>undefined\<close> (or, for \<open>vtc\<close>, the hashes, \<open>age\<close> and \<open>isAdult\<close>, assigns
  nothing). The hashes are kept as the source keeps them, as hexadecimal strings.
\<close>

record identity =
  emailMobilePresent :: number
  referenceId :: "string option"
  name :: "string option"
  dateOfBirth :: "string option"
  gender :: "string option"
  careOf :: "string option"
  district :: "string option"
  landmark :: "string option"
  house :: "string option"
  location :: "string option"
  pinCode :: "string option"
  postOffice :: "string option"
  state :: "string option"
  street :: "string option"
  subDistrict :: "string option"
  vtc :: "string option"
  mobileHash :: "string option"
  emailHash :: "string option"
  photo :: "byte list"
  signature :: "byte list"
  age :: "int option"
  isAdult :: "bool option"

text \<open>The second pass over the field values: \<^verbatim>\<open>currentIndex += fieldLength + 1\<close>.\<close>

definition skipTextFields :: "string list \<Rightarrow> nat" where
  "skipTextFields fieldValues = foldl (\<lambda>currentIndex v. currentIndex + (length v + 1)) 0 fieldValues"

text \<open>The branches on the indicator: the two hashes and the photo.\<close>

definition binaryTail ::
  "byte list \<Rightarrow> number \<Rightarrow> bool \<Rightarrow> int \<Rightarrow> int \<Rightarrow> string option \<times> string option \<times> byte list" where
  "binaryTail byteArray indicator fieldShift currentIndex signatureStartIndex =
     (if indicator = Num 3 \<or> fieldShift then
        (let mobileStartIndex = signatureStartIndex - 32;
             emailStartIndex = mobileStartIndex - 32;
             photoEndIndex = emailStartIndex
         in (Some (bytesToHexString (slice byteArray mobileStartIndex (mobileStartIndex + 32))),
             Some (bytesToHexString (slice byteArray emailStartIndex (emailStartIndex + 32))),
             slice byteArray currentIndex photoEndIndex))
      else if indicator = Num 2 then
        (let mobileStartIndex = signatureStartIndex - 32;
             photoEndIndex = mobileStartIndex
         in (Some (bytesToHexString (slice byteArray mobileStartIndex (mobileStartIndex + 32))),
             None,
             slice byteArray currentIndex photoEndIndex))
      else if indicator = Num 1 then
        (let emailStartIndex = signatureStartIndex - 32;
             photoEndIndex = emailStartIndex
         in (None,
             Some (bytesToHexString (slice byteArray emailStartIndex (emailStartIndex + 32))),
             slice byteArray currentIndex photoEndIndex))
      else
        (let photoEndIndex = signatureStartIndex
         in (None, None, slice byteArray currentIndex photoEndIndex)))"

text \<open>The age is computed when the date of birth is a string that is not empty and
  \<^verbatim>\<open>parseDateOfBirth\<close> accepts it.\<close>

definition deriveAge :: "host \<Rightarrow> string option \<Rightarrow> int option" where
  "deriveAge h dobField =
     (case dobField of
        None \<Rightarrow> None
      | Some dobString \<Rightarrow>
          if dobString = [] then None
          else (case parseDateOfBirth h dobString of
                  None \<Rightarrow> None
                | Some dob \<Rightarrow> Some (calculateAge (clock h 2) dob)))"

text \<open>
  \<^verbatim>\<open>extractDataFields\<close>. The only statement that can throw is \<^verbatim>\<open>fieldValues[0].trim()\<close>,
  when the first pass has read no field; the \<^verbatim>\<open>catch\<close> block throws an error that carries
  \<^verbatim>\<open>currentIndex\<close>, still 0 then.
\<close>

definition extractDataFields :: "host \<Rightarrow> byte list \<Rightarrow> error + identity" where
  "extractDataFields h byteArray =
     (let fieldValues = fst (readFields byteArray 0 []) in
      if fieldValues = [] then Inl (ExtractionFailure 0)
      else
        (let firstFieldValue = trim (fieldValues ! 0);
             parsedFirstValue = parseInt firstFieldValue 10;
             secondFieldValue = at fieldValues 1;
             fieldShift = (isNaN parsedFirstValue \<and> secondFieldValue = Some ''3'');
             indicator = (if fieldShift then Num 3
                          else if isNaN parsedFirstValue then Num 0 else parsedFirstValue);
             fieldValues = (if fieldShift then shiftFields fieldValues 1 else fieldValues);
             currentIndex = int (skipTextFields fieldValues);
             dataLength = int (length byteArray);
             signatureStartIndex = dataLength - SIGNATURE_SIZE;
             tail = binaryTail byteArray indicator fieldShift currentIndex signatureStartIndex;
             derivedAge = deriveAge h (at fieldValues 3)
         in Inr \<lparr> emailMobilePresent = indicator,
                  referenceId = at fieldValues 1,
                  name = at fieldValues 2,
                  dateOfBirth = at fieldValues 3,
                  gender = at fieldValues 4,
                  careOf = at fieldValues 5,
                  district = at fieldValues 6,
                  landmark = at fieldValues 7,
                  house = at fieldValues 8,
                  location = at fieldValues 9,
                  pinCode = at fieldValues 10,
                  postOffice = at fieldValues 11,
                  state = at fieldValues 12,
                  street = at fieldValues 13,
                  subDistrict = at fieldValues 14,
                  vtc = (if length fieldValues > 15 then at fieldValues 15 else None),
                  mobileHash = fst tail,
                  emailHash = fst (snd tail),
                  photo = snd (snd tail),
                  signature = slice byteArray signatureStartIndex dataLength,
                  age = derivedAge,
                  isAdult = map_option (\<lambda>a. a \<ge> 18) derivedAge \<rparr>))"

text \<open>The named text fields of a record in the order of their assignment, that is,
  the fields filled from positions 1 to 15 of the field values.\<close>

definition textFields :: "identity \<Rightarrow> string option list" where
  "textFields r =
     [referenceId r, name r, dateOfBirth r, gender r, careOf r, district r, landmark r,
      house r, location r, pinCode r, postOffice r, state r, street r, subDistrict r, vtc r]"

text \<open>Hosts for the examples, each with a parser of date strings that accepts none:
  \<open>sampleHost\<close> has the clock at noon of 15 June 2024, one millisecond later at every
  reading; \<open>newYearHost\<close> has the first reading in the last millisecond of 2024 and the
  later ones in the first millisecond of 2025; \<open>yearEndHost\<close> has every reading in the
  last millisecond of 2024.\<close>

definition sampleHost :: host where
  "sampleHost = \<lparr> clock = (\<lambda>k. 1718452800000 + int k), dateParse = (\<lambda>s. None) \<rparr>"

definition newYearHost :: host where
  "newYearHost = \<lparr> clock = (\<lambda>k. if k = 0 then 1735689599999 else 1735689600000),
                   dateParse = (\<lambda>s. None) \<rparr>"

definition yearEndHost :: host where
  "yearEndHost = \<lparr> clock = (\<lambda>k. 1735689599999), dateParse = (\<lambda>s. None) \<rparr>"

section \<open>Properties of the age computation\<close>

lemma dob_2000_06_15:
  "newDate (Num 2000) (Num 5) (Num 15) = Some 961027200000"
  "getFullYear 961027200000 = 2000" "getMonth 961027200000 = 5" "getDate 961027200000 = 15"
  by code_simp+

lemma today_2024_06_14:
  "newDate (Num 2024) (Num 5) (Num 14) = Some 1718323200000"
  "getFullYear 1718323200000 = 2024" "getMonth 1718323200000 = 5" "getDate 1718323200000 = 14"
  by code_simp+

lemma today_2024_06_15:
  "getFullYear 1718409600000 = 2024" "getMonth 1718409600000 = 5" "getDate 1718409600000 = 15"
  by code_simp+

text \<open>
  Claim C9. For every date of birth and every clock reading, \<open>calculateAge\<close> is the
  difference of the years, less one exactly when the month and day of today come before
  the month and day of the birth. For a birth on 15 June 2000 (month 5, counted from 0)
  the age is 23 on 14 June 2024, and 24 on every day of 2024 from 15 June on.
\<close>

theorem calculateAge_birthday_rule:
  "(\<forall>today dob. calculateAge today dob =
      getFullYear today - getFullYear dob
        - (if getMonth today < getMonth dob
              \<or> (getMonth today = getMonth dob \<and> getDate today < getDate dob)
           then 1 else 0))
   \<and> newDate (Num 2000) (Num 5) (Num 15) = Some 961027200000
   \<and> newDate (Num 2024) (Num 5) (Num 14) = Some 1718323200000
   \<and> calculateAge 1718323200000 961027200000 = 23
   \<and> (\<forall>today. getFullYear today = 2024
          \<and> (5 < getMonth today \<or> (getMonth today = 5 \<and> 15 \<le> getDate today))
        \<longrightarrow> calculateAge today 961027200000 = 24)"
proof -
  have rule: "calculateAge today dob =
      getFullYear today - getFullYear dob
        - (if getMonth today < getMonth dob
              \<or> (getMonth today = getMonth dob \<and> getDate today < getDate dob)
           then 1 else 0)" for today dob
    by (simp add: calculateAge_def Let_def)
  have before: "calculateAge 1718323200000 961027200000 = 23"
    unfolding rule by (simp add: dob_2000_06_15 today_2024_06_14)
  have later: "calculateAge today 961027200000 = 24"
    if "getFullYear today = 2024"
      and "5 < getMonth today \<or> (getMonth today = 5 \<and> 15 \<le> getDate today)" for today
    unfolding rule using that by (auto simp add: dob_2000_06_15)
  show ?thesis
    using rule before later dob_2000_06_15(1) today_2024_06_14(1) by blast
qed

theorem calculateAge_birthday_rule_witness:
  "getFullYear 1718409600000 = 2024
   \<and> (5 < getMonth 1718409600000 \<or> (getMonth 1718409600000 = 5 \<and> 15 \<le> getDate 1718409600000))
   \<and> calculateAge 1718409600000 961027200000 = 24"
proof -
  have hyp: "getFullYear 1718409600000 = 2024
     \<and> (5 < getMonth 1718409600000 \<or> (getMonth 1718409600000 = 5 \<and> 15 \<le> getDate 1718409600000))"
    by (simp add: today_2024_06_15)
  from calculateAge_birthday_rule
  have "\<forall>today. getFullYear today = 2024
          \<and> (5 < getMonth today \<or> (getMonth today = 5 \<and> 15 \<le> getDate today))
        \<longrightarrow> calculateAge today 961027200000 = 24"
    by (elim conjE)
  then show ?thesis using hyp by blast
qed

section \<open>Properties of the first pass\<close>

lemma slice_nat:
  "i \<le> j \<Longrightarrow> j \<le> length xs \<Longrightarrow> slice xs (int i) (int j) = take (j - i) (drop i xs)"
  by (simp add: slice_def relativeIndex_def Let_def)

lemma findDelimiter_le: "endIndex \<le> length byteArray \<Longrightarrow> findDelimiter byteArray endIndex \<le> length byteArray"
proof (induction byteArray endIndex rule: findDelimiter.induct)
  case (1 byteArray endIndex)
  show ?case
  proof (cases "endIndex < length byteArray \<and> byteArray ! endIndex \<noteq> DELIMITER")
    case True
    then show ?thesis using "1.IH" by (subst findDelimiter.simps) simp
  next
    case False
    then show ?thesis using "1.prems" by (subst findDelimiter.simps) auto
  qed
qed

lemma findDelimiter_token:
  "DELIMITER \<notin> set t \<Longrightarrow>
     findDelimiter (pre @ t @ DELIMITER # rest) (length pre) = length pre + length t"
proof (induction t arbitrary: pre)
  case Nil
  show ?case by (subst findDelimiter.simps) simp
next
  case (Cons x t)
  have "findDelimiter ((pre @ [x]) @ t @ DELIMITER # rest) (length (pre @ [x]))
      = length (pre @ [x]) + length t"
    using Cons.prems by (intro Cons.IH) simp
  then show ?case
    using Cons.prems by (subst findDelimiter.simps) (auto simp add: nth_append)
qed

lemma findDelimiter_last:
  "DELIMITER \<notin> set t \<Longrightarrow> findDelimiter (pre @ t) (length pre) = length pre + length t"
proof (induction t arbitrary: pre)
  case Nil
  show ?case by (subst findDelimiter.simps) simp
next
  case (Cons x t)
  have "findDelimiter ((pre @ [x]) @ t) (length (pre @ [x])) = length (pre @ [x]) + length t"
    using Cons.prems by (intro Cons.IH) simp
  then show ?case
    using Cons.prems by (subst findDelimiter.simps) (auto simp add: nth_append)
qed

lemma readFields_step:
  "index < length byteArray \<Longrightarrow>
     readFields byteArray index fieldValues =
       (let endIndex = findDelimiter byteArray index;
            fieldValues' = fieldValues @ [bytesToString (slice byteArray (int index) (int endIndex))]
        in if 15 < length fieldValues' then (fieldValues', endIndex + 1)
           else readFields byteArray (endIndex + 1) fieldValues')"
  by (subst readFields.simps) (simp add: Let_def)

lemma readFields_stop:
  "\<not> index < length byteArray \<Longrightarrow> readFields byteArray index fieldValues = (fieldValues, index)"
  by (subst readFields.simps) simp

lemma readFields_prefix: "\<exists>more. fst (readFields byteArray index fieldValues) = fieldValues @ more"
proof (induction byteArray index fieldValues rule: readFields.induct)
  case (1 byteArray index fieldValues)
  show ?case
  proof (cases "index < length byteArray")
    case False
    then show ?thesis by (simp add: readFields_stop)
  next
    case True
    define endIndex where "endIndex = findDelimiter byteArray index"
    define val where "val = bytesToString (slice byteArray (int index) (int endIndex))"
    show ?thesis
    proof (cases "15 < length (fieldValues @ [val])")
      case True
      then show ?thesis
        using \<open>index < length byteArray\<close>
        by (simp add: readFields_step Let_def endIndex_def val_def)
    next
      case False
      have "\<exists>more. fst (readFields byteArray (endIndex + 1) (fieldValues @ [val])) = (fieldValues @ [val]) @ more"
        using "1.IH" [OF \<open>index < length byteArray\<close> endIndex_def refl val_def refl refl] False
        by simp
      then show ?thesis
        using \<open>index < length byteArray\<close> False
        by (auto simp add: readFields_step Let_def endIndex_def val_def)
    qed
  qed
qed

lemma readFields_nonempty:
  "byteArray \<noteq> [] \<Longrightarrow> fst (readFields byteArray 0 []) \<noteq> []"
proof -
  assume ne: "byteArray \<noteq> []"
  define endIndex where "endIndex = findDelimiter byteArray 0"
  define val where "val = bytesToString (slice byteArray (int 0) (int endIndex))"
  obtain more where "fst (readFields byteArray (endIndex + 1) [val]) = [val] @ more"
    using readFields_prefix by blast
  then show ?thesis
    using ne by (simp add: readFields_step Let_def endIndex_def val_def)
qed

lemma readFields_empty: "readFields [] 0 [] = ([], 0)"
  by (simp add: readFields_stop)

section \<open>Failure and bounds\<close>

lemma extractDataFields_empty: "extractDataFields h [] = Inl (ExtractionFailure 0)"
  by (simp add: extractDataFields_def readFields_empty)

lemma extractDataFields_returns:
  "byteArray \<noteq> [] \<Longrightarrow> \<not> isl (extractDataFields h byteArray)"
  by (simp add: extractDataFields_def Let_def readFields_nonempty)

lemma readFields_eq_Nil_iff: "fst (readFields byteArray 0 []) = [] \<longleftrightarrow> byteArray = []"
  using readFields_nonempty [of byteArray] by (auto simp add: readFields_empty)

lemma signature_extractDataFields:
  "byteArray \<noteq> [] \<Longrightarrow>
     signature (projr (extractDataFields h byteArray)) =
       slice byteArray (int (length byteArray) - 256) (int (length byteArray))"
  by (simp add: extractDataFields_def Let_def readFields_nonempty SIGNATURE_SIZE_def)

lemma relativeIndex_nat [simp]: "relativeIndex len (int k) = min k len"
  by (simp add: relativeIndex_def)

lemma relativeIndex_back:
  "relativeIndex len (int len - int k) = (if len < k then 2 * len - k else len - k)"
proof (cases "len < k")
  case True
  then have "int len - int k < 0" by simp
  moreover have "nat (max (int len + (int len - int k)) 0) = 2 * len - k" by arith
  ultimately show ?thesis using True by (simp add: relativeIndex_def)
next
  case False
  then have "\<not> int len - int k < 0" by simp
  moreover have "min (nat (int len - int k)) len = len - k" by arith
  ultimately show ?thesis using False by (simp add: relativeIndex_def)
qed

lemma slice_signature_short:
  "length xs < 256 \<Longrightarrow>
     slice xs (int (length xs) - 256) (int (length xs)) = drop (2 * length xs - 256) xs"
  using relativeIndex_back [of "length xs" 256] by (simp add: slice_def Let_def)

lemma slice_signature_long:
  "256 \<le> length xs \<Longrightarrow>
     slice xs (int (length xs) - 256) (int (length xs)) = drop (length xs - 256) xs"
  using relativeIndex_back [of "length xs" 256] by (simp add: slice_def Let_def)

text \<open>
  Claim C5, as the code has it. \<open>extractDataFields\<close> has no check of the length of the
  payload against the trailing segments: for every payload that is not empty, however
  short, it returns a record and no error. When the payload has fewer than 256 bytes, the
  start index of the signature is negative and \<open>slice\<close> counts it from the end: the
  signature is the payload without its first \<open>2 * length - 256\<close> bytes (all of it up to
  128 bytes), which is fewer than 256 bytes.
\<close>

theorem extractDataFields_never_checks_bounds:
  "(byteArray \<noteq> [] \<longrightarrow> \<not> isl (extractDataFields h byteArray))
   \<and> (byteArray \<noteq> [] \<and> length byteArray < 256 \<longrightarrow>
        signature (projr (extractDataFields h byteArray))
          = drop (2 * length byteArray - 256) byteArray
        \<and> length (signature (projr (extractDataFields h byteArray))) < 256)"
  by (auto simp add: extractDataFields_returns signature_extractDataFields slice_signature_short)

theorem extractDataFields_never_checks_bounds_witness:
  "[48, 255, 65, 255] \<noteq> ([] :: byte list) \<and> length [48, 255, 65, 255 :: byte] < 256
   \<and> \<not> isl (extractDataFields sampleHost [48, 255, 65, 255])
   \<and> signature (projr (extractDataFields sampleHost [48, 255, 65, 255])) = [48, 255, 65, 255]"
  using extractDataFields_never_checks_bounds [of "[48, 255, 65, 255]" sampleHost] by simp

text \<open>Claim C5 as stated fails: a payload of four bytes, shorter than a signature, is
  parsed into a record.\<close>

theorem short_payload_counterexample:
  "length [48, 255, 65, 255 :: byte] < 256
   \<and> extractDataFields sampleHost [48, 255, 65, 255] =
       Inr \<lparr> emailMobilePresent = Num 0, referenceId = Some ''A'', name = None,
             dateOfBirth = None, gender = None, careOf = None, district = None,
             landmark = None, house = None, location = None, pinCode = None,
             postOffice = None, state = None, street = None, subDistrict = None,
             vtc = None, mobileHash = None, emailHash = None, photo = [],
             signature = [48, 255, 65, 255], age = None, isAdult = None \<rparr>"
  by code_simp

section \<open>Properties of the indicator and of the workaround\<close>

lemma decimal_digit_codes:
  "char_of (48::nat) = CHR ''0''" "char_of (49::nat) = CHR ''1''" "char_of (50::nat) = CHR ''2''"
  "char_of (51::nat) = CHR ''3''" "char_of (52::nat) = CHR ''4''" "char_of (53::nat) = CHR ''5''"
  "char_of (54::nat) = CHR ''6''" "char_of (55::nat) = CHR ''7''" "char_of (56::nat) = CHR ''8''"
  "char_of (57::nat) = CHR ''9''"
  by code_simp+

lemma isRadixDigit_10_range:
  "isRadixDigit 10 c \<longleftrightarrow> 48 \<le> (of_char c :: nat) \<and> (of_char c :: nat) \<le> 57"
proof -
  have "(of_char c :: int) = int (of_char c :: nat)"
    by (simp add: of_nat_of_char)
  then show ?thesis
    by (auto simp add: isRadixDigit_def digitValue_def Let_def)
qed

lemma isRadixDigit_10_iff: "isRadixDigit 10 c \<longleftrightarrow> c \<in> set ''0123456789''"
proof
  assume "isRadixDigit 10 c"
  then have "48 \<le> (of_char c :: nat)" "(of_char c :: nat) \<le> 57"
    by (simp_all add: isRadixDigit_10_range)
  then have cases: "(of_char c :: nat) = 48 \<or> (of_char c :: nat) = 49 \<or> (of_char c :: nat) = 50
      \<or> (of_char c :: nat) = 51 \<or> (of_char c :: nat) = 52 \<or> (of_char c :: nat) = 53
      \<or> (of_char c :: nat) = 54 \<or> (of_char c :: nat) = 55 \<or> (of_char c :: nat) = 56
      \<or> (of_char c :: nat) = 57"
    by arith
  have c: "c = char_of (of_char c :: nat)"
    by simp
  have "c = CHR ''0'' \<or> c = CHR ''1'' \<or> c = CHR ''2'' \<or> c = CHR ''3'' \<or> c = CHR ''4''
      \<or> c = CHR ''5'' \<or> c = CHR ''6'' \<or> c = CHR ''7'' \<or> c = CHR ''8'' \<or> c = CHR ''9''"
    using cases
    by (elim disjE) (subst c, simp only: decimal_digit_codes, simp)+
  then show "c \<in> set ''0123456789''"
    by auto
next
  assume "c \<in> set ''0123456789''"
  then have "c = CHR ''0'' \<or> c = CHR ''1'' \<or> c = CHR ''2'' \<or> c = CHR ''3'' \<or> c = CHR ''4''
      \<or> c = CHR ''5'' \<or> c = CHR ''6'' \<or> c = CHR ''7'' \<or> c = CHR ''8'' \<or> c = CHR ''9''"
    by simp
  then show "isRadixDigit 10 c"
    by (elim disjE) (simp_all add: isRadixDigit_10_range)
qed

lemma digit_cases:
  assumes "isRadixDigit 10 c"
  shows "c = CHR ''0'' \<or> c = CHR ''1'' \<or> c = CHR ''2'' \<or> c = CHR ''3'' \<or> c = CHR ''4''
      \<or> c = CHR ''5'' \<or> c = CHR ''6'' \<or> c = CHR ''7'' \<or> c = CHR ''8'' \<or> c = CHR ''9''"
  using assms unfolding isRadixDigit_10_iff by simp

lemma not_isWhiteSpace_digit: "isRadixDigit 10 c \<Longrightarrow> \<not> isWhiteSpace c"
  by (drule digit_cases, elim disjE) (simp_all add: isWhiteSpace_def)

lemma not_sign_digit: "isRadixDigit 10 c \<Longrightarrow> c \<noteq> CHR ''+'' \<and> c \<noteq> CHR ''-''"
  by (drule digit_cases, elim disjE) simp_all

lemma digitsValue_nonneg: "0 \<le> R \<Longrightarrow> 0 \<le> digitsValue R Z"
proof -
  have "0 \<le> acc \<Longrightarrow> 0 \<le> R \<Longrightarrow>
      0 \<le> foldl (\<lambda>acc c. acc * R + (case digitValue c of None \<Rightarrow> 0 | Some d \<Rightarrow> d)) acc Z" for acc
  proof (induction Z arbitrary: acc)
    case Nil
    then show ?case by simp
  next
    case (Cons c Z)
    have "0 \<le> (case digitValue c of None \<Rightarrow> 0 | Some d \<Rightarrow> d)"
      by (auto simp add: digitValue_def Let_def split: option.splits if_splits)
    then have "0 \<le> acc * R + (case digitValue c of None \<Rightarrow> 0 | Some d \<Rightarrow> d)"
      using Cons.prems by simp
    then show ?case using Cons.IH Cons.prems by simp
  qed
  then show "0 \<le> R \<Longrightarrow> 0 \<le> digitsValue R Z"
    by (simp add: digitsValue_def)
qed

lemma parseInt_digit_prefix:
  assumes "ds \<noteq> []" and digits: "\<forall>x\<in>set ds. isRadixDigit 10 x"
    and "rest = [] \<or> \<not> isRadixDigit 10 (hd rest)"
  shows "parseInt (ds @ rest) 10 = toNumber (digitsValue 10 ds)"
proof -
  obtain d ds' where ds: "ds = d # ds'"
    using assms(1) by (cases ds) auto
  from digits have d: "isRadixDigit 10 d"
    by (simp add: ds)
  have start: "trimStart (ds @ rest) = ds @ rest"
    using not_isWhiteSpace_digit [OF d] by (simp add: trimStart_def ds)
  have run: "takeWhile (isRadixDigit 10) (ds @ rest) = ds"
  proof (cases rest)
    case Nil
    then show ?thesis using digits by simp
  next
    case (Cons c cs)
    then have "\<not> isRadixDigit 10 c"
      using assms(3) by simp
    then show ?thesis
      using digits Cons by (simp add: takeWhile_append2)
  qed
  have first: "ds @ rest \<noteq> []" "hd (ds @ rest) = d"
    by (simp_all add: ds)
  have nosign: "d \<noteq> CHR ''+''" "d \<noteq> CHR ''-''"
    using not_sign_digit [OF d] by simp_all
  show ?thesis
    unfolding parseInt_def start Let_def first
    by (simp only: nosign if_False simp_thms) (simp add: run assms(1))
qed

lemma shiftFields_step:
  "i + 1 < length fieldValues \<Longrightarrow>
     shiftFields fieldValues i = shiftFields (fieldValues[i := fieldValues ! (i + 1)]) (i + 1)"
  by (subst shiftFields.simps) simp

lemma shiftFields_stop: "\<not> i + 1 < length fieldValues \<Longrightarrow> shiftFields fieldValues i = fieldValues"
  by (subst shiftFields.simps) simp

lemma length_shiftFields [simp]: "length (shiftFields fieldValues i) = length fieldValues"
proof (induction fieldValues i rule: shiftFields.induct)
  case (1 fieldValues i)
  show ?case
  proof (cases "i + 1 < length fieldValues")
    case True
    then show ?thesis using "1.IH" by (simp add: shiftFields_step)
  next
    case False
    then show ?thesis by (simp add: shiftFields_stop)
  qed
qed

lemma nth_shiftFields:
  "k < length fieldValues \<Longrightarrow>
     shiftFields fieldValues i ! k =
       (if i \<le> k \<and> k + 1 < length fieldValues then fieldValues ! (k + 1) else fieldValues ! k)"
proof (induction fieldValues i rule: shiftFields.induct)
  case (1 fieldValues i)
  show ?case
  proof (cases "i + 1 < length fieldValues")
    case False
    then show ?thesis using "1.prems" by (auto simp add: shiftFields_stop)
  next
    case True
    let ?xs = "fieldValues[i := fieldValues ! (i + 1)]"
    have "shiftFields ?xs (i + 1) ! k =
        (if i + 1 \<le> k \<and> k + 1 < length ?xs then ?xs ! (k + 1) else ?xs ! k)"
      using "1.IH" [OF True] "1.prems" by simp
    then show ?thesis
      using True "1.prems" by (auto simp add: shiftFields_step nth_list_update)
  qed
qed

lemma at_shiftFields:
  "1 \<le> k \<Longrightarrow> at (shiftFields fieldValues 1) k =
     (if k + 1 < length fieldValues then Some (fieldValues ! (k + 1)) else at fieldValues k)"
  by (auto simp add: at_def nth_shiftFields)

lemma textFields_extractDataFields:
  assumes "fst (readFields byteArray 0 []) = tokens" and "tokens \<noteq> []"
  shows "textFields (projr (extractDataFields h byteArray)) =
     map (at (if isNaN (parseInt (trim (tokens ! 0)) 10) \<and> at tokens 1 = Some ''3''
              then shiftFields tokens 1 else tokens))
       [1, 2, 3, 4, 5, 6, 7, 8, 9, 10, 11, 12, 13, 14, 15]"
  using assms by (simp add: extractDataFields_def Let_def textFields_def at_def)

lemma indicator_extractDataFields:
  assumes "fst (readFields byteArray 0 []) = tokens" and "tokens \<noteq> []"
  shows "emailMobilePresent (projr (extractDataFields h byteArray)) =
     (if isNaN (parseInt (trim (tokens ! 0)) 10) \<and> at tokens 1 = Some ''3'' then Num 3
      else if isNaN (parseInt (trim (tokens ! 0)) 10) then Num 0
      else parseInt (trim (tokens ! 0)) 10)"
  using assms by (simp add: extractDataFields_def Let_def)

lemma returns_extractDataFields:
  assumes "fst (readFields byteArray 0 []) = tokens" and "tokens \<noteq> []"
  shows "\<not> isl (extractDataFields h byteArray)"
  using assms by (simp add: extractDataFields_def Let_def)

lemma positions_1_15: "[1, 2, 3, 4, 5, 6, 7, 8, 9, 10, 11, 12, 13, 14, 15] = [1 ..< 16 :: nat]"
  by code_simp

lemma nth_positions:
  "1 \<le> i \<Longrightarrow> i \<le> 15 \<Longrightarrow>
     map f [1, 2, 3, 4, 5, 6, 7, 8, 9, 10, 11, 12, 13, 14, 15 :: nat] ! (i - 1) = f i"
  unfolding positions_1_15 by simp

text \<open>
  Claim C4. Let the first pass read at least two field values. The workaround is applied
  exactly when the first value (trimmed) gives \<open>NaN\<close> under \<open>parseInt\<close> and the second
  value is the string \<open>3\<close>. Then the indicator is 3, and the named field of every position
  \<open>i\<close> from 1 to \<open>n - 2\<close> holds the value read at position \<open>i + 1\<close> (position \<open>n - 1\<close>
  keeps its own value). Otherwise the indicator is the parsed first value, 0 when that
  is \<open>NaN\<close>, and the named field of position \<open>i\<close> holds the value read at position \<open>i\<close>.
  Positions from \<open>n\<close> on are undefined in both cases.
\<close>

theorem anomaly_correction_rule:
  assumes "fst (readFields byteArray 0 []) = tokens" and "2 \<le> length tokens"
  shows "\<not> isl (extractDataFields h byteArray)
    \<and> (parseInt (trim (tokens ! 0)) 10 = NaN \<and> tokens ! 1 = ''3'' \<longrightarrow>
          emailMobilePresent (projr (extractDataFields h byteArray)) = Num 3
          \<and> (\<forall>i. 1 \<le> i \<and> i \<le> 15 \<longrightarrow>
                textFields (projr (extractDataFields h byteArray)) ! (i - 1) =
                  (if i + 2 \<le> length tokens then Some (tokens ! (i + 1))
                   else if i < length tokens then Some (tokens ! i) else None)))
    \<and> (\<not> (parseInt (trim (tokens ! 0)) 10 = NaN \<and> tokens ! 1 = ''3'') \<longrightarrow>
          emailMobilePresent (projr (extractDataFields h byteArray)) =
            (if parseInt (trim (tokens ! 0)) 10 = NaN then Num 0
             else parseInt (trim (tokens ! 0)) 10)
          \<and> (\<forall>i. 1 \<le> i \<and> i \<le> 15 \<longrightarrow>
                textFields (projr (extractDataFields h byteArray)) ! (i - 1) =
                  (if i < length tokens then Some (tokens ! i) else None)))"
proof -
  have ne: "tokens \<noteq> []"
    using assms(2) by auto
  have second: "at tokens 1 = Some ''3'' \<longleftrightarrow> tokens ! 1 = ''3''"
    using assms(2) by (simp add: at_def)
  note fields = textFields_extractDataFields [OF assms(1) ne, of h]
  note indicator = indicator_extractDataFields [OF assms(1) ne, of h]
  have returns: "\<not> isl (extractDataFields h byteArray)"
    by (rule returns_extractDataFields [OF assms(1) ne])
  have shifted: "emailMobilePresent (projr (extractDataFields h byteArray)) = Num 3
      \<and> (\<forall>i. 1 \<le> i \<and> i \<le> 15 \<longrightarrow>
            textFields (projr (extractDataFields h byteArray)) ! (i - 1) =
              (if i + 2 \<le> length tokens then Some (tokens ! (i + 1))
               else if i < length tokens then Some (tokens ! i) else None))"
    if trigger: "parseInt (trim (tokens ! 0)) 10 = NaN \<and> tokens ! 1 = ''3''"
  proof (intro conjI allI impI)
    show "emailMobilePresent (projr (extractDataFields h byteArray)) = Num 3"
      using trigger second by (simp add: indicator isNaN_def)
  next
    fix i :: nat
    assume i: "1 \<le> i \<and> i \<le> 15"
    have cond: "isNaN (parseInt (trim (tokens ! 0)) 10) \<and> at tokens 1 = Some ''3''"
      using trigger second by (simp add: isNaN_def)
    have "textFields (projr (extractDataFields h byteArray)) ! (i - 1)
        = at (shiftFields tokens 1) i"
      unfolding fields using i cond by (simp only: nth_positions) simp
    also have "\<dots> = (if i + 2 \<le> length tokens then Some (tokens ! (i + 1))
               else if i < length tokens then Some (tokens ! i) else None)"
      using i at_shiftFields [of i tokens] by (auto simp add: at_def)
    finally show "textFields (projr (extractDataFields h byteArray)) ! (i - 1) =
        (if i + 2 \<le> length tokens then Some (tokens ! (i + 1))
         else if i < length tokens then Some (tokens ! i) else None)" .
  qed
  have plain: "emailMobilePresent (projr (extractDataFields h byteArray)) =
        (if parseInt (trim (tokens ! 0)) 10 = NaN then Num 0
         else parseInt (trim (tokens ! 0)) 10)
      \<and> (\<forall>i. 1 \<le> i \<and> i \<le> 15 \<longrightarrow>
            textFields (projr (extractDataFields h byteArray)) ! (i - 1) =
              (if i < length tokens then Some (tokens ! i) else None))"
    if other: "\<not> (parseInt (trim (tokens ! 0)) 10 = NaN \<and> tokens ! 1 = ''3'')"
  proof (intro conjI allI impI)
    show "emailMobilePresent (projr (extractDataFields h byteArray)) =
        (if parseInt (trim (tokens ! 0)) 10 = NaN then Num 0
         else parseInt (trim (tokens ! 0)) 10)"
      using other second by (auto simp add: indicator isNaN_def)
  next
    fix i :: nat
    assume i: "1 \<le> i \<and> i \<le> 15"
    have cond: "\<not> (isNaN (parseInt (trim (tokens ! 0)) 10) \<and> at tokens 1 = Some ''3'')"
      using other second by (simp add: isNaN_def)
    have "textFields (projr (extractDataFields h byteArray)) ! (i - 1) = at tokens i"
      unfolding fields using i cond by (simp only: nth_positions) simp
    then show "textFields (projr (extractDataFields h byteArray)) ! (i - 1) =
        (if i < length tokens then Some (tokens ! i) else None)"
      by (simp add: at_def)
  qed
  show ?thesis
    using returns shifted plain by blast
qed

theorem anomaly_correction_rule_witness:
  "fst (readFields [120, 255, 51, 255, 82, 255, 78, 255] 0 []) = [''x'', ''3'', ''R'', ''N'']
   \<and> 2 \<le> length [''x'', ''3'', ''R'', ''N'']
   \<and> parseInt (trim ''x'') 10 = NaN
   \<and> emailMobilePresent (projr (extractDataFields sampleHost [120, 255, 51, 255, 82, 255, 78, 255]))
        = Num 3
   \<and> textFields (projr (extractDataFields sampleHost [120, 255, 51, 255, 82, 255, 78, 255])) ! 0
        = Some ''R''
   \<and> textFields (projr (extractDataFields sampleHost [120, 255, 51, 255, 82, 255, 78, 255])) ! 2
        = Some ''N''"
proof -
  have read: "fst (readFields [120, 255, 51, 255, 82, 255, 78, 255] 0 []) = [''x'', ''3'', ''R'', ''N'']"
    by code_simp
  have two: "2 \<le> length [''x'', ''3'', ''R'', ''N'']"
    by simp
  have nan: "parseInt (trim ([''x'', ''3'', ''R'', ''N''] ! 0)) 10 = NaN
      \<and> [''x'', ''3'', ''R'', ''N''] ! 1 = ''3''"
    by code_simp
  from anomaly_correction_rule [OF read two, of sampleHost] nan
  have shifted: "emailMobilePresent (projr (extractDataFields sampleHost [120, 255, 51, 255, 82, 255, 78, 255])) = Num 3
      \<and> (\<forall>i. 1 \<le> i \<and> i \<le> 15 \<longrightarrow>
            textFields (projr (extractDataFields sampleHost [120, 255, 51, 255, 82, 255, 78, 255])) ! (i - 1) =
              (if i + 2 \<le> length [''x'', ''3'', ''R'', ''N''] then Some ([''x'', ''3'', ''R'', ''N''] ! (i + 1))
               else if i < length [''x'', ''3'', ''R'', ''N''] then Some ([''x'', ''3'', ''R'', ''N''] ! i) else None))"
    by blast
  have pos: "textFields (projr (extractDataFields sampleHost [120, 255, 51, 255, 82, 255, 78, 255])) ! (i - 1) =
      (if i + 2 \<le> length [''x'', ''3'', ''R'', ''N''] then Some ([''x'', ''3'', ''R'', ''N''] ! (i + 1))
       else if i < length [''x'', ''3'', ''R'', ''N''] then Some ([''x'', ''3'', ''R'', ''N''] ! i) else None)"
    if "1 \<le> i \<and> i \<le> 15" for i
    using shifted that by blast
  have "textFields (projr (extractDataFields sampleHost [120, 255, 51, 255, 82, 255, 78, 255])) ! 0
      = Some ''R''"
    "textFields (projr (extractDataFields sampleHost [120, 255, 51, 255, 82, 255, 78, 255])) ! 2
      = Some ''N''"
    using pos [of 1] pos [of 3] by simp_all
  then show ?thesis
    using read two nan shifted by simp
qed

lemma mobileHash_present:
  "byteArray \<noteq> [] \<Longrightarrow>
     mobileHash (projr (extractDataFields h byteArray)) \<noteq> None \<longleftrightarrow>
       emailMobilePresent (projr (extractDataFields h byteArray)) = Num 3
       \<or> emailMobilePresent (projr (extractDataFields h byteArray)) = Num 2"
  by (simp add: extractDataFields_def Let_def readFields_nonempty binaryTail_def)

lemma emailHash_present:
  "byteArray \<noteq> [] \<Longrightarrow>
     emailHash (projr (extractDataFields h byteArray)) \<noteq> None \<longleftrightarrow>
       emailMobilePresent (projr (extractDataFields h byteArray)) = Num 3
       \<or> emailMobilePresent (projr (extractDataFields h byteArray)) = Num 1"
  by (simp add: extractDataFields_def Let_def readFields_nonempty binaryTail_def)

lemma textFields_single:
  assumes "fst (readFields byteArray 0 []) = [t]"
  shows "textFields (projr (extractDataFields h byteArray)) = replicate 15 None"
proof -
  have "textFields (projr (extractDataFields h byteArray)) =
      map (at [t]) [1, 2, 3, 4, 5, 6, 7, 8, 9, 10, 11, 12, 13, 14, 15]"
    using textFields_extractDataFields [OF assms, of h] by (simp add: at_def)
  also have "\<dots> = replicate 15 None"
    by code_simp
  finally show ?thesis .
qed

text \<open>
  Claim C6, as the code has it. \<open>extractDataFields\<close> fails, and returns no record, exactly
  when the first pass reads no field value at all, which is exactly when the payload is
  empty; the error is the one thrown again by its \<^verbatim>\<open>catch\<close> block. There is no check of the
  number of fields: from a payload with a single field value it returns a record, in which
  all fifteen named text fields are undefined.
\<close>

theorem extractDataFields_fails_iff_no_field:
  "(isl (extractDataFields h byteArray) \<longleftrightarrow> fst (readFields byteArray 0 []) = [])
   \<and> (fst (readFields byteArray 0 []) = [] \<longleftrightarrow> byteArray = [])
   \<and> (byteArray = [] \<longrightarrow> extractDataFields h byteArray = Inl (ExtractionFailure 0))
   \<and> (length (fst (readFields byteArray 0 [])) = 1 \<longrightarrow>
         \<not> isl (extractDataFields h byteArray)
         \<and> textFields (projr (extractDataFields h byteArray)) = replicate 15 None)"
proof -
  have fails: "isl (extractDataFields h byteArray) \<longleftrightarrow> fst (readFields byteArray 0 []) = []"
    by (simp add: extractDataFields_def Let_def)
  have single: "\<not> isl (extractDataFields h byteArray)
      \<and> textFields (projr (extractDataFields h byteArray)) = replicate 15 None"
    if "length (fst (readFields byteArray 0 [])) = 1"
  proof -
    from that have "\<exists>t. fst (readFields byteArray 0 []) = [t]"
      by (metis One_nat_def length_0_conv length_Suc_conv)
    then obtain t where t: "fst (readFields byteArray 0 []) = [t]"
      by blast
    then show ?thesis
      using fails textFields_single [OF t, of h] by simp
  qed
  show ?thesis
    using fails single readFields_eq_Nil_iff [of byteArray] extractDataFields_empty [of h]
    by blast
qed

theorem extractDataFields_fails_iff_no_field_witness:
  "length (fst (readFields [65] 0 [])) = 1
   \<and> \<not> isl (extractDataFields sampleHost [65])
   \<and> textFields (projr (extractDataFields sampleHost [65])) = replicate 15 None"
proof -
  have one: "length (fst (readFields [65] 0 [])) = 1"
    by code_simp
  then show ?thesis
    using extractDataFields_fails_iff_no_field [of sampleHost "[65]"] by blast
qed

text \<open>Claim C6 as stated fails: the payload of the single byte \<open>A\<close> has one field value,
  fewer than two, and is parsed into a record.\<close>

theorem single_field_counterexample:
  "fst (readFields [65] 0 []) = [''A'']
   \<and> extractDataFields sampleHost [65] =
       Inr \<lparr> emailMobilePresent = Num 0, referenceId = None, name = None,
             dateOfBirth = None, gender = None, careOf = None, district = None,
             landmark = None, house = None, location = None, pinCode = None,
             postOffice = None, state = None, street = None, subDistrict = None,
             vtc = None, mobileHash = None, emailHash = None, photo = [],
             signature = [65], age = None, isAdult = None \<rparr>"
  by code_simp

text \<open>
  Claim C10, as the code has it. Let the first field value, trimmed, begin with one or
  more decimal digits \<open>ds\<close> followed by a character \<open>c\<close> that is no decimal digit, and let
  the digits denote an integer up to \<open>2 ^ 53\<close>. Then the indicator of the record is that
  integer, the workaround is not applied (every named field holds the value read at its
  own position), and the integer alone selects the hashes: a mobile hash for 2 and 3,
  an email hash for 1 and 3.
\<close>

theorem partially_numeric_indicator:
  assumes "fst (readFields byteArray 0 []) = tokens" and "tokens \<noteq> []"
    and "trim (tokens ! 0) = ds @ c # rest"
    and "ds \<noteq> []" and "\<forall>x\<in>set ds. isRadixDigit 10 x" and "\<not> isRadixDigit 10 c"
    and "digitsValue 10 ds \<le> 2 ^ 53"
  shows "\<not> isl (extractDataFields h byteArray)
    \<and> emailMobilePresent (projr (extractDataFields h byteArray)) = Num (digitsValue 10 ds)
    \<and> (\<forall>i. 1 \<le> i \<and> i \<le> 15 \<longrightarrow>
          textFields (projr (extractDataFields h byteArray)) ! (i - 1) = at tokens i)
    \<and> (mobileHash (projr (extractDataFields h byteArray)) \<noteq> None \<longleftrightarrow>
          digitsValue 10 ds = 3 \<or> digitsValue 10 ds = 2)
    \<and> (emailHash (projr (extractDataFields h byteArray)) \<noteq> None \<longleftrightarrow>
          digitsValue 10 ds = 3 \<or> digitsValue 10 ds = 1)"
proof -
  have nonneg: "0 \<le> digitsValue 10 ds"
    by (rule digitsValue_nonneg) simp
  have "parseInt (ds @ c # rest) 10 = toNumber (digitsValue 10 ds)"
    using assms(4,5,6) by (intro parseInt_digit_prefix) simp_all
  then have parsed: "parseInt (trim (tokens ! 0)) 10 = Num (digitsValue 10 ds)"
    using assms(3,7) nonneg by (simp add: toNumber_def)
  have bytes: "byteArray \<noteq> []"
    using assms(1,2) readFields_eq_Nil_iff [of byteArray] by auto
  have indicator: "emailMobilePresent (projr (extractDataFields h byteArray)) = Num (digitsValue 10 ds)"
    using indicator_extractDataFields [OF assms(1,2), of h] parsed by (simp add: isNaN_def)
  have fields: "textFields (projr (extractDataFields h byteArray)) ! (i - 1) = at tokens i"
    if "1 \<le> i \<and> i \<le> 15" for i
    unfolding textFields_extractDataFields [OF assms(1,2), of h] parsed
    using that by (simp only: nth_positions) (simp add: isNaN_def)
  show ?thesis
    using returns_extractDataFields [OF assms(1,2), of h] indicator fields
      mobileHash_present [OF bytes, of h] emailHash_present [OF bytes, of h]
    by simp
qed

theorem partially_numeric_indicator_witness:
  "fst (readFields [50, 97, 98, 99, 255, 82, 255] 0 []) = [''2abc'', ''R'']
   \<and> trim ([''2abc'', ''R''] ! 0) = ''2'' @ CHR ''a'' # ''bc''
   \<and> isRadixDigit 10 CHR ''2'' \<and> \<not> isRadixDigit 10 CHR ''a''
   \<and> digitsValue 10 ''2'' = 2
   \<and> emailMobilePresent (projr (extractDataFields sampleHost [50, 97, 98, 99, 255, 82, 255])) = Num 2
   \<and> mobileHash (projr (extractDataFields sampleHost [50, 97, 98, 99, 255, 82, 255])) \<noteq> None
   \<and> emailHash (projr (extractDataFields sampleHost [50, 97, 98, 99, 255, 82, 255])) = None"
proof -
  have read: "fst (readFields [50, 97, 98, 99, 255, 82, 255] 0 []) = [''2abc'', ''R'']"
    by code_simp
  have ne: "[''2abc'', ''R''] \<noteq> []"
    by simp
  have trimmed: "trim ([''2abc'', ''R''] ! 0) = ''2'' @ CHR ''a'' # ''bc''"
    by code_simp
  have ds: "''2'' \<noteq> []"
    by simp
  have digits: "\<forall>x\<in>set ''2''. isRadixDigit 10 x"
    by (simp add: isRadixDigit_10_iff)
  have other: "\<not> isRadixDigit 10 CHR ''a''"
    by (simp add: isRadixDigit_10_iff)
  have val: "digitsValue 10 ''2'' = 2"
    by code_simp
  then have bound: "digitsValue 10 ''2'' \<le> 2 ^ 53"
    by simp
  show ?thesis
    using partially_numeric_indicator [OF read ne trimmed ds digits other bound, of sampleHost]
      read trimmed digits other val
    by simp
qed

text \<open>Claim C10 as stated fails for a long run of digits: the first field value
  \<open>9007199254740993x\<close> begins with the digits of \<open>2 ^ 53 + 1\<close>, which no Number holds, so
  the indicator is not the integer that the digits denote.\<close>

theorem long_digit_prefix_counterexample:
  "fst (readFields [57, 48, 48, 55, 49, 57, 57, 50, 53, 52, 55, 52, 48, 57, 57, 51, 120, 255] 0 [])
     = [''9007199254740993x'']
   \<and> digitsValue 10 ''9007199254740993'' = 2 ^ 53 + 1
   \<and> \<not> isl (extractDataFields sampleHost
         [57, 48, 48, 55, 49, 57, 57, 50, 53, 52, 55, 52, 48, 57, 57, 51, 120, 255])
   \<and> emailMobilePresent (projr (extractDataFields sampleHost
         [57, 48, 48, 55, 49, 57, 57, 50, 53, 52, 55, 52, 48, 57, 57, 51, 120, 255]))
       \<noteq> Num (digitsValue 10 ''9007199254740993'')"
  by code_simp

section \<open>Properties of the binary tail\<close>

lemma relativeIndex_from_end:
  assumes "0 \<le> z" and "z \<le> int len"
  shows "relativeIndex len (int len - z) = len - nat z"
proof -
  have "\<not> int len - z < 0"
    using assms by simp
  moreover have "min (nat (int len - z)) len = len - nat z"
    using assms by arith
  ultimately show ?thesis
    by (simp add: relativeIndex_def)
qed

lemma slice_from_end:
  assumes "0 \<le> b" and "b \<le> a" and "a \<le> int (length xs)"
  shows "slice xs (int (length xs) - a) (int (length xs) - b)
     = take (nat (a - b)) (drop (length xs - nat a) xs)"
proof -
  have "relativeIndex (length xs) (int (length xs) - a) = length xs - nat a"
    using assms by (intro relativeIndex_from_end) simp_all
  moreover have "relativeIndex (length xs) (int (length xs) - b) = length xs - nat b"
    using assms by (intro relativeIndex_from_end) simp_all
  moreover have "length xs - nat b - (length xs - nat a) = nat (a - b)"
    using assms by arith
  ultimately show ?thesis
    by (simp add: slice_def Let_def)
qed

lemma slice_nat_general:
  "slice xs (int i) (int j) = take (min j (length xs) - i) (drop i xs)"
  by (cases "i \<le> length xs") (simp_all add: slice_def Let_def min_def)

lemma slice_to_end:
  assumes "0 \<le> b" and "b \<le> int (length xs)"
  shows "slice xs (int i) (int (length xs) - b) = take (length xs - nat b - i) (drop i xs)"
proof -
  have eq: "int (length xs) - b = int (length xs - nat b)"
    using assms by simp
  show ?thesis
    unfolding eq slice_nat_general by simp
qed

lemma tail_extractDataFields:
  assumes "fst (readFields byteArray 0 []) = tokens" and "tokens \<noteq> []"
  shows "(mobileHash (projr (extractDataFields h byteArray)),
          emailHash (projr (extractDataFields h byteArray)),
          photo (projr (extractDataFields h byteArray))) =
     binaryTail byteArray (emailMobilePresent (projr (extractDataFields h byteArray))) False
       (int (skipTextFields
          (if isNaN (parseInt (trim (tokens ! 0)) 10) \<and> at tokens 1 = Some ''3''
           then shiftFields tokens 1 else tokens)))
       (int (length byteArray) - 256)"
  using assms by (simp add: extractDataFields_def Let_def binaryTail_def SIGNATURE_SIZE_def)

lemma binaryTail_both:
  assumes "byteArray = pre @ e @ m @ s" and "length e = 32" and "length m = 32" and "length s = 256"
  shows "binaryTail byteArray (Num 3) False cur (int (length byteArray) - 256) =
     (Some (bytesToHexString m), Some (bytesToHexString e), slice byteArray cur (int (length pre)))"
proof -
  have len: "int (length byteArray) = int (length pre) + 320"
    using assms by simp
  have mobile: "slice byteArray (int (length byteArray) - 288) (int (length byteArray) - 256) = m"
    using assms by (subst slice_from_end) simp_all
  have email: "slice byteArray (int (length byteArray) - 320) (int (length byteArray) - 288) = e"
    using assms by (subst slice_from_end) simp_all
  have "int (length byteArray) - 320 = int (length pre)"
    using len by simp
  then show ?thesis
    using mobile email by (simp add: binaryTail_def Let_def algebra_simps)
qed

lemma binaryTail_mobile:
  assumes "byteArray = pre @ m @ s" and "length m = 32" and "length s = 256"
  shows "binaryTail byteArray (Num 2) False cur (int (length byteArray) - 256) =
     (Some (bytesToHexString m), None, slice byteArray cur (int (length pre)))"
proof -
  have len: "int (length byteArray) = int (length pre) + 288"
    using assms by simp
  have mobile: "slice byteArray (int (length byteArray) - 288) (int (length byteArray) - 256) = m"
    using assms by (subst slice_from_end) simp_all
  have "int (length byteArray) - 288 = int (length pre)"
    using len by simp
  then show ?thesis
    using mobile by (simp add: binaryTail_def Let_def algebra_simps)
qed

lemma binaryTail_email:
  assumes "byteArray = pre @ e @ s" and "length e = 32" and "length s = 256"
  shows "binaryTail byteArray (Num 1) False cur (int (length byteArray) - 256) =
     (None, Some (bytesToHexString e), slice byteArray cur (int (length pre)))"
proof -
  have len: "int (length byteArray) = int (length pre) + 288"
    using assms by simp
  have email: "slice byteArray (int (length byteArray) - 288) (int (length byteArray) - 256) = e"
    using assms by (subst slice_from_end) simp_all
  have "int (length byteArray) - 288 = int (length pre)"
    using len by simp
  then show ?thesis
    using email by (simp add: binaryTail_def Let_def algebra_simps)
qed

lemma binaryTail_none:
  assumes "indicator \<noteq> Num 3" and "indicator \<noteq> Num 2" and "indicator \<noteq> Num 1"
  shows "binaryTail byteArray indicator False cur start = (None, None, slice byteArray cur start)"
  using assms by (simp add: binaryTail_def Let_def)

lemma length_toString16_byte:
  assumes "0 \<le> n" and "n < 256"
  shows "length (padStart2 (toString16 n)) = 2"
proof (cases "n < 16")
  case True
  then show ?thesis
    by (subst toString16.simps) (simp add: padStart2_def)
next
  case False
  then have "n div 16 < 16"
    using assms by simp
  then have "toString16 (n div 16) = [hexDigit (n div 16)]"
    by (subst toString16.simps) simp
  then show ?thesis
    using False by (subst toString16.simps) (simp add: padStart2_def)
qed

lemma length_bytesToHexString: "length (bytesToHexString bytes) = 2 * length bytes"
proof (induction bytes)
  case Nil
  show ?case by (simp add: bytesToHexString_def)
next
  case (Cons b bytes)
  have "length (padStart2 (toString16 (uint b))) = 2"
    using uint_lt2p [of b] by (intro length_toString16_byte) simp_all
  then show ?case
    using Cons.IH by (simp add: bytesToHexString_def)
qed

lemma signature_suffix:
  assumes "byteArray = pre @ s" and "length s = 256"
  shows "signature (projr (extractDataFields h byteArray)) = s"
proof -
  have ne: "byteArray \<noteq> []"
    using assms by auto
  have len: "256 \<le> length byteArray"
    using assms by simp
  have "signature (projr (extractDataFields h byteArray))
      = slice byteArray (int (length byteArray) - 256) (int (length byteArray))"
    by (rule signature_extractDataFields [OF ne])
  also have "\<dots> = drop (length byteArray - 256) byteArray"
    by (rule slice_signature_long [OF len])
  also have "\<dots> = s"
    using assms by simp
  finally show ?thesis .
qed

text \<open>
  Claim C3, as the code has it. In a record parsed from a payload that is long enough to
  hold them, the hash segments lie immediately before the 256 bytes of the signature and
  each is kept as the hexadecimal text (64 characters) of exactly 32 bytes. When both are
  present the order in the payload is email first, then mobile, then the signature; with
  indicator 2 the 32 bytes before the signature are the mobile hash, with indicator 1
  they are the email hash, and with any other indicator there is no hash.
\<close>

theorem hash_segments_layout:
  "(\<forall>pre e m s. byteArray = pre @ e @ m @ s \<and> length e = 32 \<and> length m = 32 \<and> length s = 256
        \<and> emailMobilePresent (projr (extractDataFields h byteArray)) = Num 3 \<longrightarrow>
      emailHash (projr (extractDataFields h byteArray)) = Some (bytesToHexString e)
      \<and> mobileHash (projr (extractDataFields h byteArray)) = Some (bytesToHexString m)
      \<and> signature (projr (extractDataFields h byteArray)) = s)
   \<and> (\<forall>pre m s. byteArray = pre @ m @ s \<and> length m = 32 \<and> length s = 256
        \<and> emailMobilePresent (projr (extractDataFields h byteArray)) = Num 2 \<longrightarrow>
      emailHash (projr (extractDataFields h byteArray)) = None
      \<and> mobileHash (projr (extractDataFields h byteArray)) = Some (bytesToHexString m)
      \<and> signature (projr (extractDataFields h byteArray)) = s)
   \<and> (\<forall>pre e s. byteArray = pre @ e @ s \<and> length e = 32 \<and> length s = 256
        \<and> emailMobilePresent (projr (extractDataFields h byteArray)) = Num 1 \<longrightarrow>
      emailHash (projr (extractDataFields h byteArray)) = Some (bytesToHexString e)
      \<and> mobileHash (projr (extractDataFields h byteArray)) = None
      \<and> signature (projr (extractDataFields h byteArray)) = s)
   \<and> (byteArray \<noteq> [] \<and> emailMobilePresent (projr (extractDataFields h byteArray)) \<noteq> Num 3
        \<and> emailMobilePresent (projr (extractDataFields h byteArray)) \<noteq> Num 2
        \<and> emailMobilePresent (projr (extractDataFields h byteArray)) \<noteq> Num 1 \<longrightarrow>
      emailHash (projr (extractDataFields h byteArray)) = None
      \<and> mobileHash (projr (extractDataFields h byteArray)) = None)
   \<and> (\<forall>seg. length seg = 32 \<longrightarrow> length (bytesToHexString seg) = 64)"
proof -
  let ?r = "projr (extractDataFields h byteArray)"
  let ?tokens = "fst (readFields byteArray 0 [])"
  let ?cur = "int (skipTextFields
           (if isNaN (parseInt (trim (?tokens ! 0)) 10) \<and> at ?tokens 1 = Some ''3''
            then shiftFields ?tokens 1 else ?tokens))"
  have tail: "(mobileHash ?r, emailHash ?r, photo ?r) =
      binaryTail byteArray (emailMobilePresent ?r) False ?cur (int (length byteArray) - 256)"
    if "byteArray \<noteq> []"
    using that by (intro tail_extractDataFields) (simp_all add: readFields_eq_Nil_iff)
  have both: "emailHash ?r = Some (bytesToHexString e) \<and> mobileHash ?r = Some (bytesToHexString m)
      \<and> signature ?r = s"
    if "byteArray = pre @ e @ m @ s \<and> length e = 32 \<and> length m = 32 \<and> length s = 256
      \<and> emailMobilePresent ?r = Num 3" for pre e m s
  proof -
    from that have split: "byteArray = pre @ e @ m @ s" and e: "length e = 32"
      and m: "length m = 32" and s: "length s = 256" and ind: "emailMobilePresent ?r = Num 3"
      by blast+
    have ne: "byteArray \<noteq> []"
      using split s by auto
    have "byteArray = (pre @ e @ m) @ s"
      using split by simp
    then have sig: "signature ?r = s"
      using s by (rule signature_suffix)
    have "(mobileHash ?r, emailHash ?r, photo ?r) =
        (Some (bytesToHexString m), Some (bytesToHexString e),
         slice byteArray ?cur (int (length pre)))"
      unfolding tail [OF ne] ind by (rule binaryTail_both [OF split e m s])
    then show ?thesis
      using sig by (simp only: prod.inject simp_thms)
  qed
  have mobile: "emailHash ?r = None \<and> mobileHash ?r = Some (bytesToHexString m) \<and> signature ?r = s"
    if "byteArray = pre @ m @ s \<and> length m = 32 \<and> length s = 256
      \<and> emailMobilePresent ?r = Num 2" for pre m s
  proof -
    from that have split: "byteArray = pre @ m @ s"
      and m: "length m = 32" and s: "length s = 256" and ind: "emailMobilePresent ?r = Num 2"
      by blast+
    have ne: "byteArray \<noteq> []"
      using split s by auto
    have "byteArray = (pre @ m) @ s"
      using split by simp
    then have sig: "signature ?r = s"
      using s by (rule signature_suffix)
    have "(mobileHash ?r, emailHash ?r, photo ?r) =
        (Some (bytesToHexString m), None, slice byteArray ?cur (int (length pre)))"
      unfolding tail [OF ne] ind by (rule binaryTail_mobile [OF split m s])
    then show ?thesis
      using sig by (simp only: prod.inject simp_thms)
  qed
  have email: "emailHash ?r = Some (bytesToHexString e) \<and> mobileHash ?r = None \<and> signature ?r = s"
    if "byteArray = pre @ e @ s \<and> length e = 32 \<and> length s = 256
      \<and> emailMobilePresent ?r = Num 1" for pre e s
  proof -
    from that have split: "byteArray = pre @ e @ s"
      and e: "length e = 32" and s: "length s = 256" and ind: "emailMobilePresent ?r = Num 1"
      by blast+
    have ne: "byteArray \<noteq> []"
      using split s by auto
    have "byteArray = (pre @ e) @ s"
      using split by simp
    then have sig: "signature ?r = s"
      using s by (rule signature_suffix)
    have "(mobileHash ?r, emailHash ?r, photo ?r) =
        (None, Some (bytesToHexString e), slice byteArray ?cur (int (length pre)))"
      unfolding tail [OF ne] ind by (rule binaryTail_email [OF split e s])
    then show ?thesis
      using sig by (simp only: prod.inject simp_thms)
  qed
  have none: "emailHash ?r = None \<and> mobileHash ?r = None"
    if "byteArray \<noteq> [] \<and> emailMobilePresent ?r \<noteq> Num 3 \<and> emailMobilePresent ?r \<noteq> Num 2
      \<and> emailMobilePresent ?r \<noteq> Num 1"
  proof -
    from that have ne: "byteArray \<noteq> []" and ind: "emailMobilePresent ?r \<noteq> Num 3"
      "emailMobilePresent ?r \<noteq> Num 2" "emailMobilePresent ?r \<noteq> Num 1"
      by blast+
    have "(mobileHash ?r, emailHash ?r, photo ?r) =
        (None, None, slice byteArray ?cur (int (length byteArray) - 256))"
      unfolding tail [OF ne] by (rule binaryTail_none [OF ind])
    then show ?thesis
      by (simp only: prod.inject simp_thms)
  qed
  have hex: "length (bytesToHexString seg) = 64" if "length seg = 32" for seg :: "byte list"
    using that by (simp add: length_bytesToHexString)
  show ?thesis
    using both mobile email none hex by blast
qed


lemma both_hashes_payload:
  "emailMobilePresent (projr (extractDataFields sampleHost
      ([51, 255] @ replicate 32 1 @ replicate 32 2 @ replicate 256 0))) = Num 3"
  by code_simp

theorem hash_segments_layout_witness:
  "[51, 255] @ replicate 32 1 @ replicate 32 2 @ replicate 256 0
     = [51, 255] @ replicate 32 1 @ replicate 32 2 @ (replicate 256 0 :: byte list)
   \<and> length (replicate 32 1 :: byte list) = 32 \<and> length (replicate 32 2 :: byte list) = 32
   \<and> length (replicate 256 0 :: byte list) = 256
   \<and> emailMobilePresent (projr (extractDataFields sampleHost
        ([51, 255] @ replicate 32 1 @ replicate 32 2 @ replicate 256 0))) = Num 3
   \<and> emailHash (projr (extractDataFields sampleHost
        ([51, 255] @ replicate 32 1 @ replicate 32 2 @ replicate 256 0)))
       = Some (bytesToHexString (replicate 32 1))
   \<and> mobileHash (projr (extractDataFields sampleHost
        ([51, 255] @ replicate 32 1 @ replicate 32 2 @ replicate 256 0)))
       = Some (bytesToHexString (replicate 32 2))
   \<and> signature (projr (extractDataFields sampleHost
        ([51, 255] @ replicate 32 1 @ replicate 32 2 @ replicate 256 0)))
       = replicate 256 0"
proof -
  let ?p = "[51, 255] @ replicate 32 1 @ replicate 32 2 @ (replicate 256 0 :: byte list)"
  have hyp: "?p = [51, 255] @ replicate 32 1 @ replicate 32 2 @ replicate 256 0
      \<and> length (replicate 32 1 :: byte list) = 32 \<and> length (replicate 32 2 :: byte list) = 32
      \<and> length (replicate 256 0 :: byte list) = 256
      \<and> emailMobilePresent (projr (extractDataFields sampleHost ?p)) = Num 3"
    using both_hashes_payload by simp
  from hash_segments_layout [of ?p sampleHost]
  have "\<forall>pre e m s. ?p = pre @ e @ m @ s \<and> length e = 32 \<and> length m = 32 \<and> length s = 256
        \<and> emailMobilePresent (projr (extractDataFields sampleHost ?p)) = Num 3 \<longrightarrow>
      emailHash (projr (extractDataFields sampleHost ?p)) = Some (bytesToHexString e)
      \<and> mobileHash (projr (extractDataFields sampleHost ?p)) = Some (bytesToHexString m)
      \<and> signature (projr (extractDataFields sampleHost ?p)) = s"
    by (rule conjunct1)
  then have "emailHash (projr (extractDataFields sampleHost ?p)) = Some (bytesToHexString (replicate 32 1))
      \<and> mobileHash (projr (extractDataFields sampleHost ?p)) = Some (bytesToHexString (replicate 32 2))
      \<and> signature (projr (extractDataFields sampleHost ?p)) = replicate 256 0"
    using hyp by blast
  then show ?thesis
    using hyp by blast
qed

text \<open>Claim C3 as stated fails in the order of the two hashes: in this payload the 32
  bytes of value 1 come first and the 32 bytes of value 2 follow, next to the signature;
  the parser takes the second segment as the mobile hash and the first as the email hash.\<close>

theorem hash_order_counterexample:
  "\<not> isl (extractDataFields sampleHost
        ([51, 255] @ replicate 32 1 @ replicate 32 2 @ replicate 256 0))
   \<and> mobileHash (projr (extractDataFields sampleHost
        ([51, 255] @ replicate 32 1 @ replicate 32 2 @ replicate 256 0)))
       = Some ''0202020202020202020202020202020202020202020202020202020202020202''
   \<and> emailHash (projr (extractDataFields sampleHost
        ([51, 255] @ replicate 32 1 @ replicate 32 2 @ replicate 256 0)))
       = Some ''0101010101010101010101010101010101010101010101010101010101010101''"
  by code_simp

section \<open>Properties of the text region\<close>

lemma skipTextFields_snoc:
  "skipTextFields (fieldValues @ [v]) = skipTextFields fieldValues + length v + 1"
  by (simp add: skipTextFields_def)

lemma findDelimiter_hit:
  "findDelimiter byteArray endIndex < length byteArray \<Longrightarrow>
     byteArray ! findDelimiter byteArray endIndex = DELIMITER"
proof (induction byteArray endIndex rule: findDelimiter.induct)
  case (1 byteArray endIndex)
  show ?case
  proof (cases "endIndex < length byteArray \<and> byteArray ! endIndex \<noteq> DELIMITER")
    case True
    then have step: "findDelimiter byteArray endIndex = findDelimiter byteArray (endIndex + 1)"
      by (subst findDelimiter.simps) simp
    show ?thesis
      using "1.IH" [OF True] "1.prems" unfolding step by simp
  next
    case False
    then have stop: "findDelimiter byteArray endIndex = endIndex"
      by (subst findDelimiter.simps) auto
    show ?thesis
      using False "1.prems" unfolding stop by auto
  qed
qed

lemma length_field_value:
  assumes "index \<le> length byteArray"
  shows "length (bytesToString (slice byteArray (int index) (int (findDelimiter byteArray index))))
     = findDelimiter byteArray index - index"
  using assms findDelimiter_ge [of index byteArray] findDelimiter_le [of index byteArray]
  by (simp add: bytesToString_def slice_nat)

text \<open>The second pass arrives where the first pass stopped: the sum of the lengths of
  the field values, each with its delimiter, is the index after the last delimiter.\<close>

lemma skipTextFields_readFields_general:
  "skipTextFields fieldValues = index \<Longrightarrow>
     skipTextFields (fst (readFields byteArray index fieldValues))
       = snd (readFields byteArray index fieldValues)"
proof (induction byteArray index fieldValues rule: readFields.induct)
  case (1 byteArray index fieldValues)
  show ?case
  proof (cases "index < length byteArray")
    case False
    then show ?thesis
      using "1.prems" by (simp add: readFields_stop)
  next
    case True
    define endIndex where "endIndex = findDelimiter byteArray index"
    define val where "val = bytesToString (slice byteArray (int index) (int endIndex))"
    have "length val = endIndex - index"
      using True unfolding val_def endIndex_def by (intro length_field_value) simp
    moreover have "index \<le> endIndex"
      unfolding endIndex_def by (rule findDelimiter_ge)
    ultimately have sum: "skipTextFields (fieldValues @ [val]) = endIndex + 1"
      using "1.prems" by (simp add: skipTextFields_snoc)
    show ?thesis
    proof (cases "15 < length (fieldValues @ [val])")
      case True
      then show ?thesis
        using \<open>index < length byteArray\<close> sum
        by (simp add: readFields_step Let_def endIndex_def val_def)
    next
      case False
      have "skipTextFields (fst (readFields byteArray (endIndex + 1) (fieldValues @ [val])))
          = snd (readFields byteArray (endIndex + 1) (fieldValues @ [val]))"
        using "1.IH" [OF \<open>index < length byteArray\<close> endIndex_def refl val_def refl refl] False sum
        by simp
      then show ?thesis
        using \<open>index < length byteArray\<close> False
        by (simp add: readFields_step Let_def endIndex_def val_def)
    qed
  qed
qed

lemma skipTextFields_readFields:
  "skipTextFields (fst (readFields byteArray 0 [])) = snd (readFields byteArray 0 [])"
  by (rule skipTextFields_readFields_general) (simp add: skipTextFields_def)

text \<open>Where the first pass stops inside the buffer, it stops right after a delimiter.\<close>

lemma readFields_after_delimiter_general:
  "snd (readFields byteArray index fieldValues) \<le> length byteArray \<Longrightarrow>
   index < length byteArray \<Longrightarrow>
     0 < snd (readFields byteArray index fieldValues)
     \<and> byteArray ! (snd (readFields byteArray index fieldValues) - 1) = DELIMITER"
proof (induction byteArray index fieldValues rule: readFields.induct)
  case (1 byteArray index fieldValues)
  define endIndex where "endIndex = findDelimiter byteArray index"
  define val where "val = bytesToString (slice byteArray (int index) (int endIndex))"
  note lt = \<open>index < length byteArray\<close>
  show ?case
  proof (cases "15 < length (fieldValues @ [val])")
    case True
    then have stop: "snd (readFields byteArray index fieldValues) = endIndex + 1"
      using lt by (simp add: readFields_step Let_def endIndex_def val_def)
    then have "endIndex < length byteArray"
      using "1.prems"(1) by simp
    then have "byteArray ! endIndex = DELIMITER"
      unfolding endIndex_def by (rule findDelimiter_hit)
    then show ?thesis
      unfolding stop by simp
  next
    case False
    then have step: "readFields byteArray index fieldValues
        = readFields byteArray (endIndex + 1) (fieldValues @ [val])"
      using lt by (simp add: readFields_step Let_def endIndex_def val_def)
    show ?thesis
    proof (cases "endIndex + 1 < length byteArray")
      case True
      show ?thesis
        using "1.IH" [OF lt endIndex_def refl val_def refl refl _ _ True] False "1.prems"(1)
        unfolding step by simp
    next
      case False
      then have stop: "snd (readFields byteArray index fieldValues) = endIndex + 1"
        unfolding step by (simp add: readFields_stop)
      then have "endIndex < length byteArray"
        using "1.prems"(1) by simp
      then have "byteArray ! endIndex = DELIMITER"
        unfolding endIndex_def by (rule findDelimiter_hit)
      then show ?thesis
        unfolding stop by simp
    qed
  qed
qed

lemma photo_extractDataFields:
  assumes "readFields byteArray 0 [] = (tokens, textEnd)" and "tokens \<noteq> []"
    and "\<not> (parseInt (trim (tokens ! 0)) 10 = NaN \<and> at tokens 1 = Some ''3'')"
  shows "(mobileHash (projr (extractDataFields h byteArray)),
          emailHash (projr (extractDataFields h byteArray)),
          photo (projr (extractDataFields h byteArray))) =
     binaryTail byteArray (emailMobilePresent (projr (extractDataFields h byteArray))) False
       (int textEnd) (int (length byteArray) - 256)"
proof -
  have tokens: "fst (readFields byteArray 0 []) = tokens"
    using assms(1) by simp
  have "skipTextFields tokens = textEnd"
    using skipTextFields_readFields [of byteArray] assms(1) by simp
  then show ?thesis
    using tail_extractDataFields [OF tokens assms(2), of h] assms(3)
    by (auto simp add: isNaN_def)
qed


lemma photo_binaryTail:
  assumes "(mobileHash r, emailHash r, photo r) = binaryTail byteArray indicator False (int textEnd)
      (int (length byteArray) - 256)"
    and "256 + ((if mobileHash r = None then 0 else 32) + (if emailHash r = None then 0 else 32))
      \<le> length byteArray"
  shows "photo r =
     take (length byteArray - 256
             - ((if mobileHash r = None then 0 else 32) + (if emailHash r = None then 0 else 32))
             - textEnd)
       (drop textEnd byteArray)"
proof -
  consider (both) "indicator = Num 3"
    | (mobile) "indicator \<noteq> Num 3" "indicator = Num 2"
    | (email) "indicator \<noteq> Num 3" "indicator \<noteq> Num 2" "indicator = Num 1"
    | (none) "indicator \<noteq> Num 3" "indicator \<noteq> Num 2" "indicator \<noteq> Num 1"
    by blast
  then show ?thesis
  proof cases
    case both
    then have parts: "mobileHash r \<noteq> None" "emailHash r \<noteq> None"
      "photo r = slice byteArray (int textEnd) (int (length byteArray) - 320)"
      using assms(1) by (simp_all add: binaryTail_def Let_def)
    have "320 \<le> int (length byteArray)"
      using assms(2) parts by simp
    then have "slice byteArray (int textEnd) (int (length byteArray) - 320)
        = take (length byteArray - nat 320 - textEnd) (drop textEnd byteArray)"
      by (intro slice_to_end) simp_all
    then show ?thesis
      using parts by auto
  next
    case mobile
    then have parts: "mobileHash r \<noteq> None" "emailHash r = None"
      "photo r = slice byteArray (int textEnd) (int (length byteArray) - 288)"
      using assms(1) by (simp_all add: binaryTail_def Let_def)
    have "288 \<le> int (length byteArray)"
      using assms(2) parts by simp
    then have "slice byteArray (int textEnd) (int (length byteArray) - 288)
        = take (length byteArray - nat 288 - textEnd) (drop textEnd byteArray)"
      by (intro slice_to_end) simp_all
    then show ?thesis
      using parts by auto
  next
    case email
    then have parts: "mobileHash r = None" "emailHash r \<noteq> None"
      "photo r = slice byteArray (int textEnd) (int (length byteArray) - 288)"
      using assms(1) by (simp_all add: binaryTail_def Let_def)
    have "288 \<le> int (length byteArray)"
      using assms(2) parts by simp
    then have "slice byteArray (int textEnd) (int (length byteArray) - 288)
        = take (length byteArray - nat 288 - textEnd) (drop textEnd byteArray)"
      by (intro slice_to_end) simp_all
    then show ?thesis
      using parts by auto
  next
    case none
    then have parts: "mobileHash r = None" "emailHash r = None"
      "photo r = slice byteArray (int textEnd) (int (length byteArray) - 256)"
      using assms(1) by (simp_all add: binaryTail_def Let_def)
    have "256 \<le> int (length byteArray)"
      using assms(2) parts by simp
    then have "slice byteArray (int textEnd) (int (length byteArray) - 256)
        = take (length byteArray - nat 256 - textEnd) (drop textEnd byteArray)"
      by (intro slice_to_end) simp_all
    then show ?thesis
      using parts by auto
  qed
qed

lemma photo_signature_only:
  assumes "length byteArray = 256"
    and "emailMobilePresent (projr (extractDataFields h byteArray)) = Num 0"
  shows "photo (projr (extractDataFields h byteArray)) = []"
proof -
  let ?r = "projr (extractDataFields h byteArray)"
  let ?tokens = "fst (readFields byteArray 0 [])"
  let ?cur = "skipTextFields
           (if isNaN (parseInt (trim (?tokens ! 0)) 10) \<and> at ?tokens 1 = Some ''3''
            then shiftFields ?tokens 1 else ?tokens)"
  have ne: "?tokens \<noteq> []"
    using assms(1) readFields_eq_Nil_iff [of byteArray] by auto
  have "(mobileHash ?r, emailHash ?r, photo ?r) =
      binaryTail byteArray (Num 0) False (int ?cur) (int (length byteArray) - 256)"
    using tail_extractDataFields [OF refl ne, of h] unfolding assms(2) .
  also have "\<dots> = (None, None, slice byteArray (int ?cur) (int (length byteArray) - 256))"
    by (rule binaryTail_none) simp_all
  also have "int (length byteArray) - 256 = int 0"
    using assms(1) by simp
  finally have "photo ?r = slice byteArray (int ?cur) (int 0)"
    by (simp only: prod.inject)
  then show ?thesis
    unfolding slice_nat_general by simp
qed

text \<open>
  Claim C2, as the code has it. Let the first pass stop at index \<open>textEnd\<close>; when that
  lies inside the payload it is the offset right after a delimiter, the one of the last
  field read. In a record parsed without the workaround, from a payload that holds 256
  bytes of signature and 32 bytes for each hash of the record, the photo is exactly the
  bytes from \<open>textEnd\<close> up to the start of the first of those segments (nothing, when
  \<open>textEnd\<close> lies beyond it). For a payload of exactly 256 bytes and indicator 0 the photo
  is empty.
\<close>

theorem photo_between_text_and_tail:
  assumes "readFields byteArray 0 [] = (tokens, textEnd)" and "byteArray \<noteq> []"
  shows "(textEnd \<le> length byteArray \<longrightarrow>
            0 < textEnd \<and> byteArray ! (textEnd - 1) = DELIMITER)
    \<and> (\<not> (parseInt (trim (tokens ! 0)) 10 = NaN \<and> at tokens 1 = Some ''3'')
        \<and> 256 + ((if mobileHash (projr (extractDataFields h byteArray)) = None then 0 else 32)
                 + (if emailHash (projr (extractDataFields h byteArray)) = None then 0 else 32))
            \<le> length byteArray \<longrightarrow>
          photo (projr (extractDataFields h byteArray)) =
            take (length byteArray - 256
                    - ((if mobileHash (projr (extractDataFields h byteArray)) = None then 0 else 32)
                       + (if emailHash (projr (extractDataFields h byteArray)) = None then 0 else 32))
                    - textEnd)
              (drop textEnd byteArray))
    \<and> (length byteArray = 256
        \<and> emailMobilePresent (projr (extractDataFields h byteArray)) = Num 0 \<longrightarrow>
          photo (projr (extractDataFields h byteArray)) = [])"
proof -
  let ?r = "projr (extractDataFields h byteArray)"
  have ne: "tokens \<noteq> []"
    using assms readFields_eq_Nil_iff [of byteArray] by auto
  have start: "0 < textEnd \<and> byteArray ! (textEnd - 1) = DELIMITER"
    if "textEnd \<le> length byteArray"
    using readFields_after_delimiter_general [of byteArray 0 "[]"] assms that by simp
  have range: "photo ?r =
      take (length byteArray - 256
              - ((if mobileHash ?r = None then 0 else 32) + (if emailHash ?r = None then 0 else 32))
              - textEnd)
        (drop textEnd byteArray)"
    if "\<not> (parseInt (trim (tokens ! 0)) 10 = NaN \<and> at tokens 1 = Some ''3'')"
      and "256 + ((if mobileHash ?r = None then 0 else 32) + (if emailHash ?r = None then 0 else 32))
        \<le> length byteArray"
    using photo_extractDataFields [OF assms(1) ne that(1), of h] that(2)
    by (rule photo_binaryTail)
  show ?thesis
    using start range photo_signature_only [of byteArray h] by blast
qed


lemma sixteen_fields_payload:
  "readFields ([48] @ replicate 16 255 @ [7, 8, 9] @ replicate 256 0) 0 []
     = (''0'' # replicate 15 [], 17)"
  "mobileHash (projr (extractDataFields sampleHost
      ([48] @ replicate 16 255 @ [7, 8, 9] @ replicate 256 0))) = None"
  "emailHash (projr (extractDataFields sampleHost
      ([48] @ replicate 16 255 @ [7, 8, 9] @ replicate 256 0))) = None"
  "parseInt (trim ((''0'' # replicate 15 []) ! 0)) 10 \<noteq> NaN"
  "take 3 (drop 17 ([48] @ replicate 16 255 @ [7, 8, 9] @ replicate 256 (0 :: byte))) = [7, 8, 9]"
  by code_simp+

theorem photo_between_text_and_tail_witness:
  "readFields ([48] @ replicate 16 255 @ [7, 8, 9] @ replicate 256 0) 0 []
     = (''0'' # replicate 15 [], 17)
   \<and> [48] @ replicate 16 255 @ [7, 8, 9] @ replicate 256 0 \<noteq> ([] :: byte list)
   \<and> 17 \<le> length ([48] @ replicate 16 255 @ [7, 8, 9] @ replicate 256 (0 :: byte))
   \<and> ([48] @ replicate 16 255 @ [7, 8, 9] @ replicate 256 (0 :: byte)) ! (17 - 1) = DELIMITER
   \<and> parseInt (trim ((''0'' # replicate 15 []) ! 0)) 10 \<noteq> NaN
   \<and> 256 \<le> length ([48] @ replicate 16 255 @ [7, 8, 9] @ replicate 256 (0 :: byte))
   \<and> photo (projr (extractDataFields sampleHost
        ([48] @ replicate 16 255 @ [7, 8, 9] @ replicate 256 0))) = [7, 8, 9]"
proof -
  let ?p = "[48] @ replicate 16 255 @ [7, 8, 9] @ replicate 256 (0 :: byte)"
  let ?r = "projr (extractDataFields sampleHost ?p)"
  have ne: "?p \<noteq> []"
    by simp
  have len: "length ?p = 276"
    by simp
  note inst = photo_between_text_and_tail [OF sixteen_fields_payload(1) ne, of sampleHost]
  have "17 \<le> length ?p \<longrightarrow> 0 < (17 :: nat) \<and> ?p ! (17 - 1) = DELIMITER"
    using inst by (rule conjunct1)
  then have delim: "?p ! (17 - 1) = DELIMITER"
    using len by simp
  have "\<not> (parseInt (trim ((''0'' # replicate 15 []) ! 0)) 10 = NaN
        \<and> at (''0'' # replicate 15 []) 1 = Some ''3'')
      \<and> 256 + ((if mobileHash ?r = None then 0 else 32) + (if emailHash ?r = None then 0 else 32))
          \<le> length ?p \<longrightarrow>
      photo ?r = take (length ?p - 256
              - ((if mobileHash ?r = None then 0 else 32) + (if emailHash ?r = None then 0 else 32))
              - 17) (drop 17 ?p)"
    using inst by (elim conjE)
  then have "photo ?r = take (length ?p - 256 - 17) (drop 17 ?p)"
    using sixteen_fields_payload(2,3,4) len by simp
  then have "photo ?r = [7, 8, 9]"
    using sixteen_fields_payload(5) len by simp
  then show ?thesis
    using sixteen_fields_payload(1,4) delim len by simp
qed

text \<open>Claim C2 as stated fails on a payload too short for its hashes: here the text
  ends at offset 17 and the signature starts at offset 44, the indicator is 3, and the
  start of the email hash, 20 bytes before the payload, is counted from its end. The
  photo has 263 bytes and runs over the signature.\<close>

theorem photo_overrun_counterexample:
  "snd (readFields ([51] @ replicate 16 255 @ replicate 283 0) 0 []) = 17
   \<and> length ([51] @ replicate 16 255 @ replicate 283 (0 :: byte)) - 256 = 44
   \<and> \<not> isl (extractDataFields sampleHost ([51] @ replicate 16 255 @ replicate 283 0))
   \<and> emailMobilePresent (projr (extractDataFields sampleHost
        ([51] @ replicate 16 255 @ replicate 283 0))) = Num 3
   \<and> photo (projr (extractDataFields sampleHost ([51] @ replicate 16 255 @ replicate 283 0)))
       = replicate 263 0"
  by code_simp

section \<open>Recovery of the text fields\<close>

lemma slice_token:
  "slice (pre @ t @ rest) (int (length pre)) (int (length pre + length t)) = t"
  unfolding slice_nat_general by simp

lemma readFields_token:
  assumes "DELIMITER \<notin> set t"
  shows "readFields (pre @ t @ DELIMITER # rest) (length pre) fieldValues =
     (if 15 < length (fieldValues @ [bytesToString t])
      then (fieldValues @ [bytesToString t], length pre + length t + 1)
      else readFields ((pre @ t @ [DELIMITER]) @ rest) (length (pre @ t @ [DELIMITER]))
             (fieldValues @ [bytesToString t]))"
proof -
  have found: "findDelimiter (pre @ t @ DELIMITER # rest) (length pre) = length pre + length t"
    using assms by (rule findDelimiter_token)
  have val: "slice (pre @ t @ DELIMITER # rest) (int (length pre)) (int (length pre + length t)) = t"
    by (rule slice_token)
  have lt: "length pre < length (pre @ t @ DELIMITER # rest)"
    by simp
  show ?thesis
    unfolding readFields_step [OF lt] found Let_def val by simp
qed

lemma readFields_tokens:
  assumes "\<forall>t\<in>set ts. DELIMITER \<notin> set t" and "length fieldValues + length ts \<le> 16"
  shows "\<exists>more. fst (readFields (pre @ concat (map (\<lambda>t. t @ [DELIMITER]) ts) @ rest)
                        (length pre) fieldValues)
     = fieldValues @ map bytesToString ts @ more"
  using assms
proof (induction ts arbitrary: pre fieldValues)
  case Nil
  then show ?case
    using readFields_prefix [of "pre @ rest" "length pre" fieldValues] by simp
next
  case (Cons t ts)
  let ?rest = "concat (map (\<lambda>t. t @ [DELIMITER]) ts) @ rest"
  have t: "DELIMITER \<notin> set t"
    using Cons.prems(1) by simp
  have step: "readFields (pre @ t @ DELIMITER # ?rest) (length pre) fieldValues =
     (if 15 < length (fieldValues @ [bytesToString t])
      then (fieldValues @ [bytesToString t], length pre + length t + 1)
      else readFields ((pre @ t @ [DELIMITER]) @ ?rest) (length (pre @ t @ [DELIMITER]))
             (fieldValues @ [bytesToString t]))"
    using t by (rule readFields_token)
  show ?case
  proof (cases "15 < length (fieldValues @ [bytesToString t])")
    case True
    then have "length ts = 0"
      using Cons.prems(2) by (simp only: length_append list.size)
    then have "ts = []"
      by simp
    then show ?thesis
      using step True by simp
  next
    case False
    have "\<exists>more. fst (readFields ((pre @ t @ [DELIMITER]) @ ?rest) (length (pre @ t @ [DELIMITER]))
                          (fieldValues @ [bytesToString t]))
        = (fieldValues @ [bytesToString t]) @ map bytesToString ts @ more"
      using Cons.prems by (intro Cons.IH) simp_all
    then show ?thesis
      using step False by simp
  qed
qed


lemma bytesToString_inverse: "map (\<lambda>c. word_of_nat (of_char c)) (bytesToString bytes) = bytes"
proof -
  have "word_of_nat (of_char (char_of (unat b) :: char)) = b" for b :: byte
  proof -
    have "unat b < 256"
      using unsigned_less [of b, where ?'a = nat] by simp
    then have "(of_char (char_of (unat b) :: char) :: nat) = unat b"
      by simp
    then show ?thesis
      by simp
  qed
  then show ?thesis
    by (simp add: bytesToString_def map_idI)
qed

text \<open>
  Claim C1, as the code has it. Let the buffer consist of at most 16 tokens without the
  delimiter byte, every one of them, the last included, followed by a delimiter, and
  then of the photo, the hashes and 256 bytes of signature. Then the first pass recovers
  every token, as its string of single bytes, at its own position; unless the workaround
  applies, the named field of every position from 1 on holds it; and the signature of
  the record is the 256 bytes at the end of the buffer. The string determines the bytes
  of the token.
\<close>

theorem fields_and_signature_recovered:
  assumes "tokens \<noteq> []" and "length tokens \<le> 16"
    and "\<forall>t\<in>set tokens. DELIMITER \<notin> set t" and "length sig = 256"
    and "byteArray = concat (map (\<lambda>t. t @ [DELIMITER]) tokens) @ photoBytes @ hashes @ sig"
  shows "(\<forall>i<length tokens. fst (readFields byteArray 0 []) ! i = bytesToString (tokens ! i))
    \<and> (\<forall>i<length tokens.
          map (\<lambda>c. word_of_nat (of_char c)) (fst (readFields byteArray 0 []) ! i) = tokens ! i)
    \<and> \<not> isl (extractDataFields h byteArray)
    \<and> (\<not> (parseInt (trim (fst (readFields byteArray 0 []) ! 0)) 10 = NaN
           \<and> at (fst (readFields byteArray 0 [])) 1 = Some ''3'') \<longrightarrow>
         (\<forall>i. 1 \<le> i \<and> i < length tokens \<longrightarrow>
            textFields (projr (extractDataFields h byteArray)) ! (i - 1)
              = Some (bytesToString (tokens ! i))))
    \<and> signature (projr (extractDataFields h byteArray)) = sig
    \<and> signature (projr (extractDataFields h byteArray))
         = drop (length byteArray - 256) byteArray"
proof -
  let ?fv = "fst (readFields byteArray 0 [])"
  let ?r = "projr (extractDataFields h byteArray)"
  have "\<exists>more. fst (readFields ([] @ concat (map (\<lambda>t. t @ [DELIMITER]) tokens)
        @ (photoBytes @ hashes @ sig)) (length ([] :: byte list)) [])
      = [] @ map bytesToString tokens @ more"
    using assms(3,2) by (intro readFields_tokens) simp_all
  then obtain more where fv: "?fv = map bytesToString tokens @ more"
    using assms(5) by auto
  have recovered: "?fv ! i = bytesToString (tokens ! i)" if "i < length tokens" for i
    using that by (simp add: fv nth_append)
  then have bytes: "map (\<lambda>c. word_of_nat (of_char c)) (?fv ! i) = tokens ! i"
    if "i < length tokens" for i
    using that by (simp add: bytesToString_inverse)
  have ne: "?fv \<noteq> []"
    using fv assms(1) by simp
  have returns: "\<not> isl (extractDataFields h byteArray)"
    using ne by (intro returns_extractDataFields [OF refl])
  have named: "textFields ?r ! (i - 1) = Some (bytesToString (tokens ! i))"
    if plain: "\<not> (parseInt (trim (?fv ! 0)) 10 = NaN \<and> at ?fv 1 = Some ''3'')"
      and i: "1 \<le> i \<and> i < length tokens" for i
  proof -
    have cond: "\<not> (isNaN (parseInt (trim (?fv ! 0)) 10) \<and> at ?fv 1 = Some ''3'')"
      using plain by (simp add: isNaN_def)
    have pos: "1 \<le> i" "i \<le> 15"
      using i assms(2) by simp_all
    have "textFields ?r ! (i - 1) = at ?fv i"
      unfolding textFields_extractDataFields [OF refl ne, of h]
      using pos cond by (simp only: nth_positions) simp
    also have "\<dots> = Some (bytesToString (tokens ! i))"
      using i recovered [of i] by (simp add: at_def fv)
    finally show ?thesis .
  qed
  have "byteArray = (concat (map (\<lambda>t. t @ [DELIMITER]) tokens) @ photoBytes @ hashes) @ sig"
    using assms(5) by simp
  then have sig: "signature ?r = sig"
    using assms(4) by (rule signature_suffix)
  have "byteArray \<noteq> []" "256 \<le> length byteArray"
    using assms(4,5) by auto
  then have last: "signature ?r = drop (length byteArray - 256) byteArray"
    by (simp add: signature_extractDataFields slice_signature_long)
  show ?thesis
    using recovered bytes returns named sig last by blast
qed


theorem fields_and_signature_recovered_witness:
  "[[48], [65 :: byte]] \<noteq> [] \<and> length [[48], [65 :: byte]] \<le> 16
   \<and> DELIMITER \<notin> set [48] \<and> DELIMITER \<notin> set [65]
   \<and> length (replicate 256 0 :: byte list) = 256
   \<and> fst (readFields ([48, 255, 65, 255] @ [7] @ [] @ replicate 256 0) 0 []) ! 1 = bytesToString [65]
   \<and> signature (projr (extractDataFields sampleHost ([48, 255, 65, 255] @ [7] @ [] @ replicate 256 0)))
       = replicate 256 0"
proof -
  have tokens: "[[48], [65 :: byte]] \<noteq> []" "length [[48], [65 :: byte]] \<le> 16"
    "\<forall>t\<in>set [[48], [65 :: byte]]. DELIMITER \<notin> set t"
    by (simp_all add: DELIMITER_def)
  have sig: "length (replicate 256 0 :: byte list) = 256"
    by simp
  have layout: "[48, 255, 65, 255] @ [7] @ [] @ replicate 256 0
      = concat (map (\<lambda>t. t @ [DELIMITER]) [[48], [65 :: byte]]) @ [7] @ [] @ replicate 256 0"
    by (simp add: DELIMITER_def)
  note inst = fields_and_signature_recovered [OF tokens sig layout, of sampleHost]
  have "\<forall>i<length [[48], [65 :: byte]].
      fst (readFields ([48, 255, 65, 255] @ [7] @ [] @ replicate 256 0) 0 []) ! i
        = bytesToString ([[48], [65 :: byte]] ! i)"
    using inst by (rule conjunct1)
  then have "fst (readFields ([48, 255, 65, 255] @ [7] @ [] @ replicate 256 0) 0 []) ! 1
      = bytesToString ([[48], [65 :: byte]] ! 1)"
    by simp
  moreover have "signature (projr (extractDataFields sampleHost
      ([48, 255, 65, 255] @ [7] @ [] @ replicate 256 0))) = replicate 256 0"
    using inst by (elim conjE)
  ultimately show ?thesis
    using tokens sig by simp
qed

text \<open>Claim C1 as stated fails for the last token: in the buffer of the tokens \<open>0\<close>
  and \<open>A\<close>, an empty photo, no hashes and a signature of 256 zero bytes, nothing
  separates \<open>A\<close> from the signature, and the field value at position 1 is \<open>A\<close>
  followed by the 256 bytes of the signature.\<close>

theorem last_token_counterexample:
  "fst (readFields ([48, 255] @ [65] @ [] @ [] @ replicate 256 0) 0 [])
     = [''0'', CHR ''A'' # replicate 256 (CHR 0x00)]
   \<and> fst (readFields ([48, 255] @ [65] @ [] @ [] @ replicate 256 0) 0 []) ! 1 \<noteq> bytesToString [65]
   \<and> referenceId (projr (extractDataFields sampleHost ([48, 255] @ [65] @ [] @ [] @ replicate 256 0)))
       \<noteq> Some ''A''"
  by code_simp

section \<open>Properties of the byte codec\<close>

lemma digitValue_hexDigit:
  assumes "k < 16"
  shows "digitValue (''0123456789abcdef'' ! k) = Some (int k)"
proof -
  have "k = 0 \<or> k = 1 \<or> k = 2 \<or> k = 3 \<or> k = 4 \<or> k = 5 \<or> k = 6 \<or> k = 7 \<or> k = 8 \<or> k = 9
      \<or> k = 10 \<or> k = 11 \<or> k = 12 \<or> k = 13 \<or> k = 14 \<or> k = 15"
    using assms by arith
  then show ?thesis
    by (elim disjE) (simp_all add: digitValue_def)
qed

lemma digitValue_hexDigit_mod: "digitValue (hexDigit d) = Some (d mod 16)"
proof -
  have "nat (d mod 16) < 16"
    by simp
  then have "digitValue (''0123456789abcdef'' ! nat (d mod 16)) = Some (int (nat (d mod 16)))"
    by (rule digitValue_hexDigit)
  then show ?thesis
    by (simp add: hexDigit_def)
qed

lemma isRadixDigit_hexDigit: "isRadixDigit 16 (hexDigit d)"
  by (simp add: isRadixDigit_def digitValue_hexDigit_mod)

lemma digitsValue_snoc:
  "digitsValue R (Z @ [c]) = digitsValue R Z * R + (case digitValue c of None \<Rightarrow> 0 | Some d \<Rightarrow> d)"
  by (simp add: digitsValue_def)

lemma toString16_small: "n < 16 \<Longrightarrow> toString16 n = [hexDigit n]"
  by (subst toString16.simps) simp

lemma toString16_large:
  "\<not> n < 16 \<Longrightarrow> toString16 n = toString16 (n div 16) @ [hexDigit (n mod 16)]"
  by (subst toString16.simps) simp

lemma toString16_not_Nil: "toString16 n \<noteq> []"
  by (cases "n < 16") (simp_all add: toString16_small toString16_large)

lemma toString16_digits: "list_all (isRadixDigit 16) (toString16 n)"
proof (induction n rule: toString16.induct)
  case (1 n)
  then show ?case
    by (cases "n < 16") (simp_all add: toString16_small toString16_large isRadixDigit_hexDigit)
qed

lemma digitsValue_toString16: "0 \<le> n \<Longrightarrow> digitsValue 16 (toString16 n) = n"
proof (induction n rule: toString16.induct)
  case (1 n)
  show ?case
  proof (cases "n < 16")
    case True
    then show ?thesis
      using "1.prems" by (simp add: toString16_small digitsValue_def digitValue_hexDigit_mod)
  next
    case False
    then have "digitsValue 16 (toString16 (n div 16)) = n div 16"
      using "1.IH" "1.prems" by simp
    then show ?thesis
      using False by (simp add: toString16_large digitsValue_snoc digitValue_hexDigit_mod)
  qed
qed

lemma hd_toString16: "0 < n \<Longrightarrow> digitValue (hd (toString16 n)) \<noteq> Some 0"
proof (induction n rule: toString16.induct)
  case (1 n)
  show ?case
  proof (cases "n < 16")
    case True
    then show ?thesis
      using "1.prems" by (simp add: toString16_small digitValue_hexDigit_mod)
  next
    case False
    then have "0 < n div 16"
      by simp
    then have "digitValue (hd (toString16 (n div 16))) \<noteq> Some 0"
      using "1.IH" False by simp
    then show ?thesis
      using False by (simp add: toString16_large toString16_not_Nil)
  qed
qed

lemma not_hex_special:
  "\<not> isRadixDigit 16 CHR ''+''" "\<not> isRadixDigit 16 CHR ''-''"
  "\<not> isRadixDigit 16 CHR ''x''" "\<not> isRadixDigit 16 CHR ''X''"
  by (simp_all add: isRadixDigit_def digitValue_def)

lemma not_isWhiteSpace_hex: "isRadixDigit 16 c \<Longrightarrow> \<not> isWhiteSpace c"
proof -
  have "(of_char c :: int) = int (of_char c :: nat)"
    by (simp add: of_nat_of_char)
  then show "isRadixDigit 16 c \<Longrightarrow> \<not> isWhiteSpace c"
    by (auto simp add: isRadixDigit_def digitValue_def Let_def isWhiteSpace_def
        split: if_splits)
qed

lemma digitValue_bounds:
  assumes "isRadixDigit R c"
  obtains d where "digitValue c = Some d" and "0 \<le> d" and "d < R"
proof -
  from assms obtain d where d: "digitValue c = Some d" "d < R"
    by (auto simp add: isRadixDigit_def split: option.splits)
  moreover have "0 \<le> d"
    using d(1) by (auto simp add: digitValue_def Let_def split: if_splits)
  ultimately show ?thesis
    using that by blast
qed

lemma parseInt_hex_pair:
  assumes a: "isRadixDigit 16 a" and b: "isRadixDigit 16 b"
  shows "parseInt [a, b] 16 = Num (digitsValue 16 [a, b])"
proof -
  obtain da where da: "digitValue a = Some da" "0 \<le> da" "da < 16"
    using a by (rule digitValue_bounds)
  obtain db where db: "digitValue b = Some db" "0 \<le> db" "db < 16"
    using b by (rule digitValue_bounds)
  have start: "trimStart [a, b] = [a, b]"
    using not_isWhiteSpace_hex [OF a] by (simp add: trimStart_def)
  have nosign: "a \<noteq> CHR ''+''" "a \<noteq> CHR ''-''"
    using a not_hex_special by auto
  have noprefix: "b \<noteq> CHR ''x''" "b \<noteq> CHR ''X''"
    using b not_hex_special by auto
  have run: "takeWhile (isRadixDigit 16) [a, b] = [a, b]"
    using a b by simp
  have val: "digitsValue 16 [a, b] = da * 16 + db"
    by (simp add: digitsValue_def da db)
  then have small: "\<bar>digitsValue 16 [a, b]\<bar> \<le> 2 ^ 53"
    using da db by simp
  have "parseInt [a, b] 16 = toNumber (digitsValue 16 [a, b])"
    unfolding parseInt_def start Let_def
    using nosign noprefix run by simp
  then show ?thesis
    using small by (simp add: toNumber_def)
qed

lemma hexToBytes_Nil: "hexToBytes [] = []"
  by (simp add: hexToBytes_def)

lemma substring_pair_head: "substring (a # b # h) 0 2 = [a, b]"
  by (simp add: substring_def Let_def)

lemma substring_pair_tail:
  "substring (a # b # h) (Suc i * 2) (Suc i * 2 + 2) = substring h (i * 2) (i * 2 + 2)"
  by (simp add: substring_def Let_def min_def)

lemma hexToBytes_pair:
  "hexToBytes (a # b # h) = ToUint8 (parseInt [a, b] 16) # hexToBytes h"
proof -
  define f where "f = (\<lambda>i. ToUint8 (parseInt (substring (a # b # h) (i * 2) (i * 2 + 2)) 16))"
  define g where "g = (\<lambda>i. ToUint8 (parseInt (substring h (i * 2) (i * 2 + 2)) 16))"
  have idx: "[0 ..< length (a # b # h) div 2] = 0 # map Suc [0 ..< length h div 2]"
    by (simp add: upt_conv_Cons map_Suc_upt del: upt_Suc)
  have f0: "f 0 = ToUint8 (parseInt [a, b] 16)"
    unfolding f_def by (simp add: substring_def Let_def)
  have fS: "f (Suc i) = g i" for i
    unfolding f_def g_def by (simp only: substring_pair_tail)
  have "hexToBytes (a # b # h) = map f (0 # map Suc [0 ..< length h div 2])"
    unfolding hexToBytes_def f_def idx by (rule refl)
  also have "\<dots> = f 0 # map g [0 ..< length h div 2]"
    by (simp add: fS comp_def)
  also have "\<dots> = ToUint8 (parseInt [a, b] 16) # hexToBytes h"
    unfolding f0 hexToBytes_def g_def by (rule refl)
  finally show ?thesis .
qed

lemma uint_hex_pair:
  assumes a: "isRadixDigit 16 a" and b: "isRadixDigit 16 b"
  shows "uint (ToUint8 (parseInt [a, b] 16)) = digitsValue 16 [a, b]"
    and "0 \<le> digitsValue 16 [a, b]" and "digitsValue 16 [a, b] < 256"
proof -
  obtain da where da: "digitValue a = Some da" "0 \<le> da" "da < 16"
    using a by (rule digitValue_bounds)
  obtain db where db: "digitValue b = Some db" "0 \<le> db" "db < 16"
    using b by (rule digitValue_bounds)
  have val: "digitsValue 16 [a, b] = da * 16 + db"
    by (simp add: digitsValue_def da db)
  show lo: "0 \<le> digitsValue 16 [a, b]" and hi: "digitsValue 16 [a, b] < 256"
    unfolding val using da db by simp_all
  have "uint (word_of_int (digitsValue 16 [a, b]) :: byte) = digitsValue 16 [a, b]"
    using lo hi by (simp add: uint_word_of_int)
  then show "uint (ToUint8 (parseInt [a, b] 16)) = digitsValue 16 [a, b]"
    by (simp add: parseInt_hex_pair [OF a b] ToUint8_def)
qed

lemma hexToBytes_value_general:
  "even (length h) \<Longrightarrow> list_all (isRadixDigit 16) h \<Longrightarrow>
     foldl (\<lambda>acc b. acc * 256 + uint b) acc (hexToBytes h)
       = foldl (\<lambda>acc c. acc * 16 + (case digitValue c of None \<Rightarrow> 0 | Some d \<Rightarrow> d)) acc h"
proof (induction h arbitrary: acc rule: induct_list012)
  case 1
  show ?case by (simp add: hexToBytes_Nil)
next
  case (2 x)
  then show ?case by simp
next
  case (3 a b h)
  have a: "isRadixDigit 16 a" and b: "isRadixDigit 16 b" and h: "list_all (isRadixDigit 16) h"
    using "3.prems"(2) by simp_all
  have even: "even (length h)"
    using "3.prems"(1) by simp
  have pair: "uint (ToUint8 (parseInt [a, b] 16)) =
      (case digitValue a of None \<Rightarrow> 0 | Some d \<Rightarrow> d) * 16
        + (case digitValue b of None \<Rightarrow> 0 | Some d \<Rightarrow> d)"
    using uint_hex_pair(1) [OF a b] by (simp add: digitsValue_def)
  show ?case
    unfolding hexToBytes_pair
    using "3.IH"(1) [OF even h] pair by (simp add: algebra_simps)
qed

lemma bigEndianValue_hexToBytes:
  "even (length h) \<Longrightarrow> list_all (isRadixDigit 16) h \<Longrightarrow>
     bigEndianValue (hexToBytes h) = digitsValue 16 h"
  unfolding bigEndianValue_def digitsValue_def by (rule hexToBytes_value_general)

lemma hd_hexToBytes:
  assumes a: "isRadixDigit 16 a" and b: "isRadixDigit 16 b"
    and "digitValue a \<noteq> Some 0 \<or> digitValue b \<noteq> Some 0"
  shows "hd (hexToBytes (a # b # h)) \<noteq> 0"
proof -
  obtain da where da: "digitValue a = Some da" "0 \<le> da" "da < 16"
    using a by (rule digitValue_bounds)
  obtain db where db: "digitValue b = Some db" "0 \<le> db" "db < 16"
    using b by (rule digitValue_bounds)
  have "digitsValue 16 [a, b] = da * 16 + db"
    by (simp add: digitsValue_def da db)
  moreover have "da \<noteq> 0 \<or> db \<noteq> 0"
    using assms(3) da db by simp
  ultimately have "digitsValue 16 [a, b] \<noteq> 0"
    using da db by arith
  then have "uint (ToUint8 (parseInt [a, b] 16)) \<noteq> 0"
    by (simp add: uint_hex_pair(1) [OF a b])
  then have "ToUint8 (parseInt [a, b] 16) \<noteq> 0"
    by auto
  then show ?thesis
    by (simp add: hexToBytes_pair)
qed

lemma isRadixDigit_zero: "isRadixDigit 16 CHR ''0''" "digitValue CHR ''0'' = Some 0"
  by (simp_all add: isRadixDigit_def digitValue_def)

lemma digitsValue_leading_zero: "digitsValue R (CHR ''0'' # Z) = digitsValue R Z"
  by (simp add: digitsValue_def isRadixDigit_zero)

lemma hexToBytes_zero: "hexToBytes ''00'' = [0]"
  by code_simp

lemma toString16_zero: "toString16 0 = ''0''"
  by code_simp

lemma even_length_pair:
  assumes "even (length xs)" and "xs \<noteq> []"
  obtains a b rest where "xs = a # b # rest"
proof -
  from assms obtain a ys where xs: "xs = a # ys"
    by (cases xs) auto
  with assms(1) have "ys \<noteq> []"
    by auto
  then obtain b rest where "ys = b # rest"
    by (cases ys) auto
  with xs show ?thesis
    using that by blast
qed

lemma bytes_of_nonneg:
  assumes "0 \<le> v"
  defines "padded \<equiv> (if length (toString16 v) mod 2 \<noteq> 0 then CHR ''0'' # toString16 v
                      else toString16 v)"
  shows "bigEndianValue (hexToBytes padded) = v"
    and "hexToBytes padded \<noteq> []"
    and "v = 0 \<longrightarrow> hexToBytes padded = [0]"
    and "0 < v \<longrightarrow> hd (hexToBytes padded) \<noteq> 0"
proof -
  have even: "even (length padded)"
    unfolding padded_def by (auto simp add: odd_iff_mod_2_eq_one)
  have digits: "list_all (isRadixDigit 16) padded"
    unfolding padded_def by (simp add: toString16_digits isRadixDigit_zero)
  have "digitsValue 16 padded = v"
    unfolding padded_def using assms(1)
    by (simp add: digitsValue_leading_zero digitsValue_toString16)
  then show "bigEndianValue (hexToBytes padded) = v"
    using bigEndianValue_hexToBytes [OF even digits] by simp
  have "padded \<noteq> []"
    unfolding padded_def by (simp add: toString16_not_Nil)
  with even obtain a b rest where pair: "padded = a # b # rest"
    by (rule even_length_pair)
  then show "hexToBytes padded \<noteq> []"
    by (simp add: hexToBytes_pair)
  show "v = 0 \<longrightarrow> hexToBytes padded = [0]"
    unfolding padded_def by (simp add: toString16_zero hexToBytes_zero)
  show "0 < v \<longrightarrow> hd (hexToBytes padded) \<noteq> 0"
  proof
    assume pos: "0 < v"
    have lead: "digitValue (hd (toString16 v)) \<noteq> Some 0"
      using pos by (rule hd_toString16)
    have ab: "isRadixDigit 16 a" "isRadixDigit 16 b"
      using digits pair by simp_all
    have "digitValue a \<noteq> Some 0 \<or> digitValue b \<noteq> Some 0"
    proof (cases "length (toString16 v) mod 2 \<noteq> 0")
      case True
      then have "b = hd (toString16 v)"
        using pair unfolding padded_def by (cases "toString16 v") auto
      then show ?thesis
        using lead by simp
    next
      case False
      then have "a = hd (toString16 v)"
        using pair unfolding padded_def by (cases "toString16 v") auto
      then show ?thesis
        using lead by simp
    qed
    then show "hd (hexToBytes padded) \<noteq> 0"
      unfolding pair using ab by (intro hd_hexToBytes)
  qed
qed

lemma trim_unchanged:
  assumes "s \<noteq> []" and "\<not> isWhiteSpace (hd s)" and "\<not> isWhiteSpace (last s)"
  shows "trim s = s"
proof -
  have "dropWhile isWhiteSpace s = s"
    using assms(2) by (simp add: dropWhile_eq_self_iff)
  moreover have "dropWhile isWhiteSpace (rev s) = rev s"
    using assms(1,3) by (simp add: dropWhile_eq_self_iff hd_rev)
  ultimately show ?thesis
    by (simp add: trim_def)
qed

lemma not_decimal_special:
  "\<not> isRadixDigit 10 CHR ''x''" "\<not> isRadixDigit 10 CHR ''X''"
  "\<not> isRadixDigit 10 CHR ''o''" "\<not> isRadixDigit 10 CHR ''O''"
  "\<not> isRadixDigit 10 CHR ''b''" "\<not> isRadixDigit 10 CHR ''B''"
  by (simp_all add: isRadixDigit_def digitValue_def)

lemma no_radix_prefix:
  assumes "\<forall>c\<in>set ds. isRadixDigit 10 c"
  shows "take 2 (p # ds) \<noteq> [q, CHR ''x'']" "take 2 (p # ds) \<noteq> [q, CHR ''X'']"
    "take 2 (p # ds) \<noteq> [q, CHR ''o'']" "take 2 (p # ds) \<noteq> [q, CHR ''O'']"
    "take 2 (p # ds) \<noteq> [q, CHR ''b'']" "take 2 (p # ds) \<noteq> [q, CHR ''B'']"
  using assms not_decimal_special by (cases ds; auto)+

lemma trim_decimal:
  assumes "ds \<noteq> []" and "\<forall>c\<in>set ds. isRadixDigit 10 c"
  shows "trim ds = ds" and "trim (CHR ''-'' # ds) = CHR ''-'' # ds"
proof -
  have first: "isRadixDigit 10 (hd ds)" and final: "isRadixDigit 10 (last ds)"
    using assms by simp_all
  show "trim ds = ds"
    using assms(1) not_isWhiteSpace_digit [OF first] not_isWhiteSpace_digit [OF final]
    by (rule trim_unchanged)
  have "\<not> isWhiteSpace CHR ''-''"
    by (simp add: isWhiteSpace_def)
  then show "trim (CHR ''-'' # ds) = CHR ''-'' # ds"
    using assms(1) not_isWhiteSpace_digit [OF final] by (intro trim_unchanged) simp_all
qed

lemma StringToBigInt_decimal:
  assumes "ds \<noteq> []" and "\<forall>c\<in>set ds. isRadixDigit 10 c"
  shows "StringToBigInt ds = Some (digitsValue 10 ds)"
proof -
  obtain d ds' where ds: "ds = d # ds'"
    using assms(1) by (cases ds) auto
  have rest: "\<forall>c\<in>set ds'. isRadixDigit 10 c" and d: "isRadixDigit 10 d"
    using assms(2) ds by simp_all
  have nosign: "hd ds \<noteq> CHR ''-''" "hd ds \<noteq> CHR ''+''"
    using not_sign_digit [OF d] ds by simp_all
  have all: "digitsOf 10 ds = Some (digitsValue 10 ds)"
    using assms by (simp add: digitsOf_def list_all_iff)
  show ?thesis
    unfolding StringToBigInt_def trim_decimal(1) [OF assms] Let_def
    using assms(1) nosign no_radix_prefix [OF rest, of d] all unfolding ds [symmetric]
    by simp
qed

lemma StringToBigInt_negative:
  assumes "ds \<noteq> []" and "\<forall>c\<in>set ds. isRadixDigit 10 c"
  shows "StringToBigInt (CHR ''-'' # ds) = Some (- digitsValue 10 ds)"
proof -
  have all: "digitsOf 10 ds = Some (digitsValue 10 ds)"
    using assms by (simp add: digitsOf_def list_all_iff)
  show ?thesis
    unfolding StringToBigInt_def trim_decimal(2) [OF assms] Let_def
    using no_radix_prefix [OF assms(2), of "CHR ''-''"] all
    by simp
qed

lemma convertBase10ToByteArray_nonneg:
  assumes "StringToBigInt s = Some v" and "0 \<le> v"
  shows "convertBase10ToByteArray s =
     Inr (hexToBytes (if length (toString16 v) mod 2 \<noteq> 0 then CHR ''0'' # toString16 v
                      else toString16 v))"
  using assms by (simp add: convertBase10ToByteArray_def bigIntToString16_def Let_def)

text \<open>
  Claim C7, as the code has it. \<open>convertBase10ToByteArray\<close> fails exactly when \<^verbatim>\<open>BigInt\<close>
  rejects the string. For every literal of one or more decimal digits it succeeds, and
  the bytes it returns denote the integer, most significant byte first, in the fewest
  bytes: the single byte 0 for zero, and no leading zero byte otherwise. The same
  literal with a minus sign in front is accepted as well. The literal \<open>255\<close> gives the
  byte \<open>0xFF\<close> and \<open>256\<close> gives the bytes \<open>0x01, 0x00\<close>.
\<close>

theorem convertBase10ToByteArray_result:
  "(isl (convertBase10ToByteArray s) \<longleftrightarrow> StringToBigInt s = None)
   \<and> (ds \<noteq> [] \<and> (\<forall>c\<in>set ds. isRadixDigit 10 c) \<longrightarrow>
        \<not> isl (convertBase10ToByteArray ds)
        \<and> bigEndianValue (projr (convertBase10ToByteArray ds)) = digitsValue 10 ds
        \<and> projr (convertBase10ToByteArray ds) \<noteq> []
        \<and> (digitsValue 10 ds = 0 \<longrightarrow> projr (convertBase10ToByteArray ds) = [0])
        \<and> (0 < digitsValue 10 ds \<longrightarrow> hd (projr (convertBase10ToByteArray ds)) \<noteq> 0)
        \<and> \<not> isl (convertBase10ToByteArray (CHR ''-'' # ds)))
   \<and> convertBase10ToByteArray ''255'' = Inr [255]
   \<and> convertBase10ToByteArray ''256'' = Inr [1, 0]"
proof -
  have fails: "isl (convertBase10ToByteArray s) \<longleftrightarrow> StringToBigInt s = None"
    by (simp add: convertBase10ToByteArray_def Let_def split: option.splits)
  have decimal: "\<not> isl (convertBase10ToByteArray ds)
      \<and> bigEndianValue (projr (convertBase10ToByteArray ds)) = digitsValue 10 ds
      \<and> projr (convertBase10ToByteArray ds) \<noteq> []
      \<and> (digitsValue 10 ds = 0 \<longrightarrow> projr (convertBase10ToByteArray ds) = [0])
      \<and> (0 < digitsValue 10 ds \<longrightarrow> hd (projr (convertBase10ToByteArray ds)) \<noteq> 0)
      \<and> \<not> isl (convertBase10ToByteArray (CHR ''-'' # ds))"
    if "ds \<noteq> [] \<and> (\<forall>c\<in>set ds. isRadixDigit 10 c)"
  proof -
    from that have ne: "ds \<noteq> []" and digits: "\<forall>c\<in>set ds. isRadixDigit 10 c"
      by blast+
    have nonneg: "0 \<le> digitsValue 10 ds"
      by (rule digitsValue_nonneg) simp
    note parsed = StringToBigInt_decimal [OF ne digits]
    note result = convertBase10ToByteArray_nonneg [OF parsed nonneg]
    note bytes = bytes_of_nonneg [OF nonneg]
    have "\<not> isl (convertBase10ToByteArray (CHR ''-'' # ds))"
      by (simp add: convertBase10ToByteArray_def Let_def StringToBigInt_negative [OF ne digits])
    then show ?thesis
      unfolding result using bytes by simp
  qed
  have "convertBase10ToByteArray ''255'' = Inr [255]"
    by code_simp
  moreover have "convertBase10ToByteArray ''256'' = Inr [1, 0]"
    by code_simp
  ultimately show ?thesis
    using fails decimal by blast
qed

theorem convertBase10ToByteArray_result_witness:
  "''65535'' \<noteq> [] \<and> list_all (isRadixDigit 10) ''65535''
   \<and> digitsValue 10 ''65535'' = 65535
   \<and> \<not> isl (convertBase10ToByteArray ''65535'')
   \<and> bigEndianValue (projr (convertBase10ToByteArray ''65535'')) = 65535
   \<and> hd (projr (convertBase10ToByteArray ''65535'')) \<noteq> 0"
proof -
  have hyp: "''65535'' \<noteq> [] \<and> (\<forall>c\<in>set ''65535''. isRadixDigit 10 c)"
    by (simp add: isRadixDigit_10_iff)
  have val: "digitsValue 10 ''65535'' = 65535"
    by code_simp
  from convertBase10ToByteArray_result [of "''65535''" "''65535''"] hyp
  have "\<not> isl (convertBase10ToByteArray ''65535'')
      \<and> bigEndianValue (projr (convertBase10ToByteArray ''65535'')) = digitsValue 10 ''65535''
      \<and> projr (convertBase10ToByteArray ''65535'') \<noteq> []
      \<and> (digitsValue 10 ''65535'' = 0 \<longrightarrow> projr (convertBase10ToByteArray ''65535'') = [0])
      \<and> (0 < digitsValue 10 ''65535'' \<longrightarrow> hd (projr (convertBase10ToByteArray ''65535'')) \<noteq> 0)
      \<and> \<not> isl (convertBase10ToByteArray (CHR ''-'' # ''65535''))"
    by blast
  then show ?thesis
    using hyp val by simp
qed

text \<open>Claim C7 as stated fails for a negative literal: \<open>-5\<close> is not a non-negative
  integer literal, yet the conversion does not fail and returns one byte.\<close>

theorem negative_literal_counterexample:
  "StringToBigInt ''-5'' = Some (- 5) \<and> convertBase10ToByteArray ''-5'' = Inr [251]"
  by code_simp

section \<open>Properties of the calendar\<close>

lemma DaysInYear_le: "DaysInYear y \<le> 366"
  by (simp add: DaysInYear_def)

lemma DayFromYear_1970: "DayFromYear 1970 = 0"
  by (simp add: DayFromYear_def)

lemma DayFromYear_le_366: "1970 \<le> y \<Longrightarrow> DayFromYear y \<le> 366 * (y - 1970)"
proof (induction y rule: int_ge_induct)
  case base
  show ?case by (simp add: DayFromYear_1970)
next
  case (step i)
  then show ?case
    using DayFromYear_step [of i] DaysInYear_le [of i] by simp
qed

lemma DayFromYear_le_365: "y \<le> 1970 \<Longrightarrow> DayFromYear y \<le> 365 * (y - 1970)"
proof (induction y rule: int_le_induct)
  case base
  show ?case by (simp add: DayFromYear_1970)
next
  case (step i)
  then show ?case
    using DayFromYear_step [of "i - 1"] DaysInYear_ge [of "i - 1"] by simp
qed

lemma DayFromYear_mono: "y \<le> y' \<Longrightarrow> DayFromYear y \<le> DayFromYear y'"
proof (induction y' rule: int_ge_induct)
  case base
  show ?case by simp
next
  case (step i)
  then show ?case
    using DayFromYear_step [of i] DaysInYear_ge [of i] by simp
qed

lemma year_estimate:
  "DayFromYear (1970 + (if 0 \<le> d then d div 366 else d div 365)) \<le> d"
proof (cases "0 \<le> d")
  case True
  then have "0 \<le> d div 366"
    by simp
  then have "DayFromYear (1970 + d div 366) \<le> 366 * (1970 + d div 366 - 1970)"
    by (intro DayFromYear_le_366) simp
  moreover have "366 * (d div 366) \<le> d"
    using mult_div_mod_eq [of 366 d] pos_mod_sign [of 366 d] by linarith
  ultimately show ?thesis
    using True by simp
next
  case False
  then have "d div 365 \<le> 0"
    by (simp add: div_le_mono)
  then have "DayFromYear (1970 + d div 365) \<le> 365 * (1970 + d div 365 - 1970)"
    by (intro DayFromYear_le_365) simp
  moreover have "365 * (d div 365) \<le> d"
    using mult_div_mod_eq [of 365 d] pos_mod_sign [of 365 d] by linarith
  ultimately show ?thesis
    using False by simp
qed

lemma yearSearch_bounds:
  "DayFromYear y \<le> d \<Longrightarrow>
     DayFromYear (yearSearch d y) \<le> d \<and> d < DayFromYear (yearSearch d y + 1)"
proof (induction d y rule: yearSearch.induct)
  case (1 d y)
  show ?case
  proof (cases "DayFromYear (y + 1) \<le> d")
    case True
    then show ?thesis
      using "1.IH" by (subst (1 2) yearSearch.simps) simp
  next
    case False
    then show ?thesis
      using "1.prems" by (subst (1 2) yearSearch.simps) simp
  qed
qed

lemma YearFromDay_bounds:
  "DayFromYear (YearFromDay d) \<le> d" "d < DayFromYear (YearFromDay d + 1)"
  using yearSearch_bounds [OF year_estimate, of d] by (simp_all add: YearFromDay_def)

lemma YearFromDay_unique:
  assumes "DayFromYear y \<le> d" and "d < DayFromYear (y + 1)"
  shows "YearFromDay d = y"
proof (rule ccontr)
  assume other: "YearFromDay d \<noteq> y"
  show False
  proof (cases "YearFromDay d < y")
    case True
    then have "DayFromYear (YearFromDay d + 1) \<le> DayFromYear y"
      by (intro DayFromYear_mono) simp
    then show False
      using YearFromDay_bounds(2) [of d] assms(1) by simp
  next
    case False
    then have "DayFromYear (y + 1) \<le> DayFromYear (YearFromDay d)"
      using other by (intro DayFromYear_mono) simp
    then show False
      using YearFromDay_bounds(1) [of d] assms(2) by simp
  qed
qed

lemma YearFromDay_mono: "d \<le> d' \<Longrightarrow> YearFromDay d \<le> YearFromDay d'"
proof (rule ccontr)
  assume le: "d \<le> d'" and "\<not> YearFromDay d \<le> YearFromDay d'"
  then have "DayFromYear (YearFromDay d' + 1) \<le> DayFromYear (YearFromDay d)"
    by (intro DayFromYear_mono) simp
  then show False
    using YearFromDay_bounds(1) [of d] YearFromDay_bounds(2) [of d'] le by simp
qed

lemma YearFromTime_mono: "t \<le> t' \<Longrightarrow> YearFromTime t \<le> YearFromTime t'"
  unfolding YearFromTime_def Day_def
  by (intro YearFromDay_mono zdiv_mono1) (simp_all add: msPerDay_def)

lemma DayWithinYear_bounds:
  "0 \<le> DayWithinYear t" "DayWithinYear t < 365 + InLeapYear t"
proof -
  have leap: "DaysInYear (YearFromTime t) = 365 + InLeapYear t"
    by (simp add: InLeapYear_def DaysInYear_def)
  show "0 \<le> DayWithinYear t"
    using YearFromDay_bounds(1) [of "Day t"] by (simp add: DayWithinYear_def YearFromTime_def)
  show "DayWithinYear t < 365 + InLeapYear t"
    using YearFromDay_bounds(2) [of "Day t"] DayFromYear_step [of "YearFromDay (Day t)"] leap
    by (simp add: DayWithinYear_def YearFromTime_def)
qed

lemma InLeapYear_cases: "InLeapYear t = 0 \<or> InLeapYear t = 1"
  by (simp add: InLeapYear_def)

lemma MonthFromTime_range: "0 \<le> MonthFromTime t" "MonthFromTime t \<le> 11"
  by (simp_all add: MonthFromTime_def Let_def)

lemma month_date_table:
  fixes d L :: int
  assumes "0 \<le> d" and "d < 365 + L" and "L = 0 \<or> L = 1"
  defines "m \<equiv> (if d < 31 then 0 else if d < 59 + L then 1 else if d < 90 + L then 2
      else if d < 120 + L then 3 else if d < 151 + L then 4 else if d < 181 + L then 5
      else if d < 212 + L then 6 else if d < 243 + L then 7 else if d < 273 + L then 8
      else if d < 304 + L then 9 else if d < 334 + L then 10 else 11 :: int)"
  defines "dt \<equiv> (if m = 0 then d + 1 else if m = 1 then d - 30 else if m = 2 then d - 58 - L
      else if m = 3 then d - 89 - L else if m = 4 then d - 119 - L
      else if m = 5 then d - 150 - L else if m = 6 then d - 180 - L
      else if m = 7 then d - 211 - L else if m = 8 then d - 242 - L
      else if m = 9 then d - 272 - L else if m = 10 then d - 303 - L
      else d - 333 - L)"
  shows "1 \<le> dt \<and> dt \<le> 31"
proof -
  consider "d < 31" | "31 \<le> d" "d < 59 + L" | "59 + L \<le> d" "d < 90 + L"
    | "90 + L \<le> d" "d < 120 + L" | "120 + L \<le> d" "d < 151 + L"
    | "151 + L \<le> d" "d < 181 + L" | "181 + L \<le> d" "d < 212 + L"
    | "212 + L \<le> d" "d < 243 + L" | "243 + L \<le> d" "d < 273 + L"
    | "273 + L \<le> d" "d < 304 + L" | "304 + L \<le> d" "d < 334 + L" | "334 + L \<le> d"
    by linarith
  then show ?thesis
    using assms(1,2,3) unfolding dt_def m_def by cases auto
qed

lemma DateFromTime_range: "1 \<le> DateFromTime t" "DateFromTime t \<le> 31"
  using month_date_table [OF DayWithinYear_bounds InLeapYear_cases, of t]
  by (simp_all add: DateFromTime_def MonthFromTime_def Let_def)

lemma days_before_month:
  assumes "0 \<le> M" and "M \<le> 11"
  shows "0 \<le> daysBeforeMonth y M" and "daysBeforeMonth y M + 31 \<le> DaysInYear y"
proof -
  define L :: int where "L = (if DaysInYear y = 366 then 1 else 0)"
  have days: "DaysInYear y = 365 + L"
    by (simp add: L_def DaysInYear_def)
  have L: "L = 0 \<or> L = 1"
    by (simp add: L_def)
  have "M = 0 \<or> M = 1 \<or> M = 2 \<or> M = 3 \<or> M = 4 \<or> M = 5 \<or> M = 6 \<or> M = 7 \<or> M = 8
      \<or> M = 9 \<or> M = 10 \<or> M = 11"
    using assms by arith
  then have "0 \<le> daysBeforeMonth y M \<and> daysBeforeMonth y M + 31 \<le> 365 + L"
    using L unfolding daysBeforeMonth_def L_def [symmetric] Let_def
    by (elim disjE) auto
  then show "0 \<le> daysBeforeMonth y M" and "daysBeforeMonth y M + 31 \<le> DaysInYear y"
    unfolding days by simp_all
qed

lemma MakeDay_in_year:
  assumes "0 \<le> M" and "M \<le> 11"
  shows "MakeDay y M D =
     (if \<bar>DayFromYear y + daysBeforeMonth y M\<bar> \<le> 100000000
      then Some (DayFromYear y + daysBeforeMonth y M + D - 1) else None)"
proof -
  have "M div 12 = 0" "M mod 12 = M"
    using assms by simp_all
  then show ?thesis
    by (simp add: MakeDay_def Let_def)
qed

lemma MakeDay_within_year:
  assumes "0 \<le> M" and "M \<le> 11" and "1 \<le> D" and "D \<le> 31"
    and "MakeDay y M D = Some day"
  shows "DayFromYear y \<le> day" and "day < DayFromYear (y + 1)"
proof -
  have day: "day = DayFromYear y + daysBeforeMonth y M + D - 1"
    using assms(5) unfolding MakeDay_in_year [OF assms(1,2)] by (simp split: if_splits)
  show "DayFromYear y \<le> day"
    unfolding day using days_before_month(1) [OF assms(1,2), of y] assms(3) by simp
  show "day < DayFromYear (y + 1)"
    unfolding day DayFromYear_step
    using days_before_month(2) [OF assms(1,2), of y] assms(4) by simp
qed

lemma MakeDay_defined:
  assumes "0 \<le> M" and "M \<le> 11"
    and "- 100000000 \<le> DayFromYear y" and "DayFromYear (y + 1) \<le> 100000000"
  shows "\<exists>day. MakeDay y M D = Some day"
proof -
  have "0 \<le> daysBeforeMonth y M" "daysBeforeMonth y M + 31 \<le> DaysInYear y"
    by (rule days_before_month [OF assms(1,2)])+
  then have "\<bar>DayFromYear y + daysBeforeMonth y M\<bar> \<le> 100000000"
    using assms(3,4) unfolding DayFromYear_step by simp
  then show ?thesis
    by (simp add: MakeDay_in_year [OF assms(1,2)])
qed

lemma Day_MakeDate: "Day (MakeDate day (TimeWithinDay t)) = day"
proof -
  have "0 \<le> TimeWithinDay t" "TimeWithinDay t < msPerDay"
    by (simp_all add: TimeWithinDay_def msPerDay_def)
  then show ?thesis
    by (simp add: Day_def MakeDate_def msPerDay_def)
qed

lemma YearFromTime_since_1970: "0 \<le> t \<Longrightarrow> 1970 \<le> YearFromTime t"
proof -
  assume "0 \<le> t"
  then have "0 \<le> Day t"
    by (simp add: Day_def msPerDay_def)
  then have "YearFromDay 0 \<le> YearFromDay (Day t)"
    by (rule YearFromDay_mono)
  moreover have "YearFromDay 0 = 1970"
    by (rule YearFromDay_unique) (simp_all add: DayFromYear_def)
  ultimately show ?thesis
    by (simp add: YearFromTime_def)
qed

lemma time_split: "t = Day t * msPerDay + TimeWithinDay t"
  by (simp add: Day_def TimeWithinDay_def)

text \<open>With the clock after 1970 and within the range of time values, setting the year
  back by 120 gives a valid date; it lies in that year and before the clock.\<close>

lemma setFullYear_back:
  assumes "0 \<le> t" and "t \<le> 8640000000000000"
  shows "\<exists>m. setFullYear t (getFullYear t - 120) = Some m
    \<and> getFullYear m = getFullYear t - 120 \<and> m \<le> t"
proof -
  define Y where "Y = YearFromTime t"
  have Y: "1970 \<le> Y"
    unfolding Y_def using assms(1) by (rule YearFromTime_since_1970)
  have year_start: "DayFromYear Y \<le> Day t"
    unfolding Y_def YearFromTime_def by (rule YearFromDay_bounds(1))
  have "Day t * msPerDay \<le> t"
    using time_split [of t] by (simp add: TimeWithinDay_def msPerDay_def)
  then have "Day t \<le> 100000000"
    using assms(2) by (simp add: msPerDay_def)
  moreover have next_year: "DayFromYear (Y - 120 + 1) \<le> DayFromYear Y"
    by (intro DayFromYear_mono) simp
  ultimately have top: "DayFromYear (Y - 120 + 1) \<le> 100000000"
    using year_start by simp
  have "DayFromYear 1850 \<le> DayFromYear (Y - 120)"
    using Y by (intro DayFromYear_mono) simp
  then have bottom: "- 43829 \<le> DayFromYear (Y - 120)"
    by (simp add: DayFromYear_def)
  then have "- 100000000 \<le> DayFromYear (Y - 120)"
    by simp
  then obtain day where made: "MakeDay (Y - 120) (MonthFromTime t) (DateFromTime t) = Some day"
    using MakeDay_defined [OF MonthFromTime_range _ top] by blast
  define m where "m = MakeDate day (TimeWithinDay t)"
  have lo: "DayFromYear (Y - 120) \<le> day" and hi: "day < DayFromYear (Y - 120 + 1)"
    by (rule MakeDay_within_year [OF MonthFromTime_range DateFromTime_range made])+
  have day: "Day m = day"
    unfolding m_def by (rule Day_MakeDate)
  have year: "getFullYear m = Y - 120"
    unfolding getFullYear_def YearFromTime_def day using lo hi by (rule YearFromDay_unique)
  have "day + 1 \<le> Day t"
    using hi next_year year_start by simp
  then have "(day + 1) * msPerDay \<le> Day t * msPerDay"
    by (simp add: msPerDay_def)
  moreover have "(day + 1) * msPerDay = day * msPerDay + msPerDay"
    by (simp add: algebra_simps)
  moreover have "0 < msPerDay"
    by (simp add: msPerDay_def)
  moreover have "m = day * msPerDay + TimeWithinDay t"
    by (simp add: m_def MakeDate_def)
  ultimately have before: "m \<le> t"
    using time_split [of t] by linarith
  have "- 43829 \<le> day"
    using lo bottom by simp
  then have "- 43829 * msPerDay \<le> day * msPerDay"
    by (simp add: msPerDay_def)
  moreover have "0 \<le> TimeWithinDay t"
    by (simp add: TimeWithinDay_def msPerDay_def)
  ultimately have "- 8640000000000000 \<le> m"
    unfolding m_def MakeDate_def by (simp add: msPerDay_def)
  then have "TimeClip m = Some m"
    using before assms(2) by (simp add: TimeClip_def)
  then have "setFullYear t (getFullYear t - 120) = Some m"
    using made by (simp add: setFullYear_def m_def Y_def getFullYear_def)
  then show ?thesis
    using year before by (simp add: Y_def getFullYear_def)
qed

section \<open>The sanity check of the date of birth\<close>

text \<open>With the two readings of the clock in the same year, after 1970 and in order, a
  date that \<open>parseDateOfBirth\<close> returns is the Date that it constructed, is not after
  the first reading, and has its year between the current year less 120 and the current
  year.\<close>


lemma parseDateOfBirth_returned_range:
  assumes "0 \<le> clock h 0" and "clock h 0 \<le> clock h 1" and "clock h 1 \<le> 8640000000000000"
    and "getFullYear (clock h 1) = getFullYear (clock h 0)"
    and "parseDateOfBirth h dobString = Some dob"
  shows "buildDob h (trim dobString) = Some dob" and "dob \<le> clock h 0"
    and "getFullYear (clock h 0) - 120 \<le> getFullYear dob"
    and "getFullYear dob \<le> getFullYear (clock h 0)"
proof -
  have "0 \<le> clock h 1"
    using assms(1,2) by simp
  then obtain m where m: "setFullYear (clock h 1) (getFullYear (clock h 1) - 120) = Some m"
    and year: "getFullYear m = getFullYear (clock h 1) - 120"
    using setFullYear_back [OF _ assms(3)] by blast
  from assms(5) show built: "buildDob h (trim dobString) = Some dob"
    by (auto simp add: parseDateOfBirth_def Let_def split: option.splits if_splits)
  from assms(5) show upper: "dob \<le> clock h 0"
    by (auto simp add: parseDateOfBirth_def Let_def split: option.splits if_splits)
  from assms(5) have lower: "m \<le> dob"
    using m unfolding assms(4)
    by (auto simp add: parseDateOfBirth_def Let_def split: option.splits if_splits)
  have "getFullYear m \<le> getFullYear dob"
    unfolding getFullYear_def using lower by (rule YearFromTime_mono)
  then show "getFullYear (clock h 0) - 120 \<le> getFullYear dob"
    using year assms(4) by simp
  show "getFullYear dob \<le> getFullYear (clock h 0)"
    unfolding getFullYear_def using upper by (rule YearFromTime_mono)
qed

text \<open>
  The two readings of the clock are two calls of \<^verbatim>\<open>new Date()\<close>. When the year changes
  between them, the lower bound is computed from the year of the first reading and the
  month and day of the second: with the first reading in the last millisecond of 2024
  and the second in the first of 2025, the bound is the first of January 1904, and the
  first of June 1904, more than 120 years before the first reading, is returned. With
  both readings in the last millisecond of 2024 it is rejected.
\<close>

lemma readings_across_new_year:
  "getFullYear (clock newYearHost 0) = 2024 \<and> getFullYear (clock newYearHost 1) = 2025
   \<and> setFullYear (clock newYearHost 1) (getFullYear (clock newYearHost 0) - 120)
       = newDate (Num 1904) (Num 0) (Num 1)
   \<and> parseDateOfBirth newYearHost ''01/06/1904'' = newDate (Num 1904) (Num 5) (Num 1)
   \<and> newDate (Num 1904) (Num 5) (Num 1) = Some (- 2069712000000)
   \<and> parseDateOfBirth yearEndHost ''01/06/1904'' = None"
  by code_simp

text \<open>
  Claim C8. \<open>parseDateOfBirth\<close> is to return none for every date after today and for
  every date more than 120 years before today. The code does not: the string
  \<^verbatim>\<open>01/01/0050\<close> writes the first of January of the year 50, about 1974 years before
  a clock at 15 June 2024, and \<open>parseDateOfBirth\<close> returns a date for it. The three parts
  are read as the numbers 1, 1 and 50; \<^verbatim>\<open>new Date(50, 0, 1)\<close> takes a year from 0 to 99
  as a year of the twentieth century and constructs the first of January 1950, which
  passes the sanity check, so that the holder is given the age 74. The same date written
  \<^verbatim>\<open>0050-01-01\<close> or \<^verbatim>\<open>01-01-0050\<close> is returned alike, while the year 100, which the
  constructor leaves alone, is rejected. The check that follows the construction does
  hold of the Date constructed, as \<open>parseDateOfBirth_returned_range\<close> states; it is the
  written date that escapes it.
\<close>

theorem year_below_100_accepted:
  "split CHR ''/'' ''01/01/0050'' = [''01'', ''01'', ''0050'']
   \<and> parseInt ''0050'' 10 = Num 50
   \<and> getFullYear (clock sampleHost 0) = 2024
   \<and> parseDateOfBirth sampleHost ''01/01/0050'' = Some (- 631152000000)
   \<and> newDate (Num 1950) (Num 0) (Num 1) = Some (- 631152000000)
   \<and> getFullYear (- 631152000000) = 1950
   \<and> deriveAge sampleHost (Some ''01/01/0050'') = Some 74
   \<and> parseDateOfBirth sampleHost ''0050-01-01'' = Some (- 631152000000)
   \<and> parseDateOfBirth sampleHost ''01-01-0050'' = Some (- 631152000000)
   \<and> parseDateOfBirth sampleHost ''01/01/0100'' = None"
  by code_simp

end
